theory Spec2Isabelle
  imports Complex_Main "HOL-Library.AList"
begin

section \<open>Text primitives\<close>

text \<open>
  A Python \<open>str\<close> is a sequence of Unicode code points; \<open>len\<close>, \<open>in\<close>, \<open>rfind\<close> and
  slicing count code points. Strings are therefore lists of code points.
\<close>

type_synonym ustr = "nat list"

text \<open>Code points of an ASCII literal, for writing concrete inputs.\<close>

definition ascii :: "string \<Rightarrow> ustr" where
  "ascii s = map of_char s"

text \<open>
  \<open>str.isspace\<close> on one code point: the white-space table of CPython
  (\<open>_PyUnicode_IsWhitespace\<close>).
\<close>

definition py_isspace :: "nat \<Rightarrow> bool" where
  "py_isspace c \<longleftrightarrow>
     (9 \<le> c \<and> c \<le> 13) \<or> (28 \<le> c \<and> c \<le> 32) \<or> c = 133 \<or> c = 160 \<or> c = 5760 \<or>
     (8192 \<le> c \<and> c \<le> 8202) \<or> c = 8232 \<or> c = 8233 \<or> c = 8239 \<or> c = 8287 \<or> c = 12288"

text \<open>\<open>str.strip()\<close>: white space removed at both ends.\<close>

definition strip :: "ustr \<Rightarrow> ustr" where
  "strip s = rev (dropWhile py_isspace (rev (dropWhile py_isspace s)))"

text \<open>
  \<open>unicodedata.normalize("NFKC", _)\<close> and \<open>str.lower\<close> are tables of the Unicode
  database, which is not part of the repository: they are parameters of the model.
\<close>

record unicode_tables =
  nfkc :: "ustr \<Rightarrow> ustr"
  str_lower :: "ustr \<Rightarrow> ustr"

text \<open>
  \<open>utils/text_norm.py\<close>: \<open>unicodedata.normalize("NFKC", s).strip().lower()\<close>. The
  \<open>None\<close> branch is not modelled: every caller passes a \<open>str\<close>.
\<close>

definition normalize_text :: "unicode_tables \<Rightarrow> ustr \<Rightarrow> ustr" where
  "normalize_text U s = str_lower U (strip (nfkc U s))"

text \<open>
  The tables restricted to ASCII, where NFKC is the identity and \<open>lower\<close> maps
  \<open>A..Z\<close> to \<open>a..z\<close>; used to run the model on concrete ASCII inputs.
\<close>

definition ascii_lower :: "nat \<Rightarrow> nat" where
  "ascii_lower c = (if 65 \<le> c \<and> c \<le> 90 then c + 32 else c)"

definition ascii_tables :: unicode_tables where
  "ascii_tables = \<lparr>nfkc = (\<lambda>s. s), str_lower = map ascii_lower\<rparr>"

text \<open>Python truthiness of an \<open>Optional[str]\<close>: neither \<open>None\<close> nor the empty string.\<close>

definition truthy :: "ustr option \<Rightarrow> bool" where
  "truthy x = (case x of None \<Rightarrow> False | Some s \<Rightarrow> s \<noteq> [])"

section \<open>The answer catalog (\<open>model/answer_list.py\<close>)\<close>

text \<open>
  The dataclass \<open>AnswerList\<close>. A \<open>dict\<close> is an association list read with
  \<open>map_of\<close> (\<open>dict.get\<close>) and written with \<open>AList.update\<close> (\<open>d[k] = v\<close>: the value
  is replaced in place, a new key goes to the end), so that \<open>values()\<close> can be listed.
\<close>

record answer_list =
  items :: "ustr list"
  used :: "ustr set"
  match_map :: "(ustr \<times> ustr) list"
  class_map :: "(ustr \<times> ustr) list"
  element_map :: "(ustr \<times> ustr) list"
  display_map :: "(ustr \<times> (ustr list \<times> ustr list)) list"

text \<open>
  \<open>AnswerList.find_match\<close>: the \<open>for disp in self.items\<close> loop. \<open>t == d.get(disp)\<close>
  is false when the key is missing (\<open>t\<close> is a \<open>str\<close>, \<open>get\<close> gives \<open>None\<close>).
\<close>

fun find_match_loop :: "answer_list \<Rightarrow> ustr \<Rightarrow> ustr option \<Rightarrow> ustr list \<Rightarrow> ustr option" where
  "find_match_loop al t previous_class [] = None"
| "find_match_loop al t previous_class (disp # rest) =
     (if disp \<in> used al then find_match_loop al t previous_class rest
      else if Some t = map_of (match_map al) disp then Some disp
      else if truthy previous_class \<and> Some t = map_of (element_map al) disp \<and>
              previous_class = map_of (class_map al) disp then Some disp
      else find_match_loop al t previous_class rest)"

definition find_match :: "unicode_tables \<Rightarrow> answer_list \<Rightarrow> ustr \<Rightarrow> ustr option \<Rightarrow> ustr option" where
  "find_match U al text previous_class =
     find_match_loop al (normalize_text U text) previous_class (items al)"

text \<open>\<open>AnswerList.contains\<close>.\<close>

definition contains :: "unicode_tables \<Rightarrow> answer_list \<Rightarrow> ustr \<Rightarrow> ustr option \<Rightarrow> bool" where
  "contains U al text previous_class \<longleftrightarrow> find_match U al text previous_class \<noteq> None"

text \<open>
  \<open>AnswerList.mark_used\<close>: returns the key and the updated catalog. \<open>if matched:\<close> is
  Python truthiness, so an empty key would not be marked.
\<close>

definition mark_used :: "unicode_tables \<Rightarrow> answer_list \<Rightarrow> ustr \<Rightarrow> ustr option \<Rightarrow> ustr option \<times> answer_list" where
  "mark_used U al text previous_class =
     (let matched = find_match U al text previous_class
      in if truthy matched then (matched, al\<lparr>used := insert (the matched) (used al)\<rparr>)
         else (None, al))"

text \<open>\<open>AnswerList.remaining_count\<close>.\<close>

definition remaining_count :: "answer_list \<Rightarrow> nat" where
  "remaining_count al = length (filter (\<lambda>i. i \<notin> used al) (items al))"

subsection \<open>Loading and saving\<close>

text \<open>
  \<open>AnswerList.load_from_csv\<close> works on \<open>rows = list(csv.reader(f))\<close>; the model starts
  from these rows. A row is a separator when \<open>not row or all(not cell.strip() ...)\<close>.
\<close>

definition is_separator :: "ustr list \<Rightarrow> bool" where
  "is_separator row \<longleftrightarrow> row = [] \<or> list_all (\<lambda>cell. strip cell = []) row"

text \<open>The \<open>for idx, row in enumerate(rows)\<close> loop with its \<open>break\<close>.\<close>

fun separator_idx :: "ustr list list \<Rightarrow> nat option" where
  "separator_idx [] = None"
| "separator_idx (row # rows) =
     (if is_separator row then Some 0 else map_option Suc (separator_idx rows))"

text \<open>The cells at the indices \<open>range(0, len(row), 2)\<close> and \<open>range(1, len(row), 2)\<close>.\<close>

fun even_cells :: "'a list \<Rightarrow> 'a list" where
  "even_cells [] = []"
| "even_cells [x] = [x]"
| "even_cells (x # y # r) = x # even_cells r"

fun odd_cells :: "'a list \<Rightarrow> 'a list" where
  "odd_cells [] = []"
| "odd_cells [x] = []"
| "odd_cells (x # y # r) = y # odd_cells r"

definition displays_of :: "ustr list \<Rightarrow> ustr list" where
  "displays_of row = filter (\<lambda>c. c \<noteq> []) (map strip (even_cells row))"

definition matches_of :: "ustr list \<Rightarrow> ustr list" where
  "matches_of row = filter (\<lambda>c. c \<noteq> []) (map strip (odd_cells row))"

text \<open>\<open>sep.join(parts)\<close>.\<close>

fun join :: "ustr \<Rightarrow> ustr list \<Rightarrow> ustr" where
  "join sep [] = []"
| "join sep [x] = x"
| "join sep (x # y # r) = x @ sep @ join sep (y # r)"

text \<open>The key of a row: \<open>normalize_text('-'.join(displays))\<close>; 45 is the hyphen.\<close>

definition norm_disp_of :: "unicode_tables \<Rightarrow> ustr list \<Rightarrow> ustr" where
  "norm_disp_of U row = normalize_text U (join [45] (displays_of row))"

text \<open>
  The body of the first loop (rows before the separator). The local variables
  \<open>items\<close>, \<open>used\<close> and the four dictionaries are the fields of the accumulator.
\<close>

definition load_unanswered_row :: "unicode_tables \<Rightarrow> answer_list \<Rightarrow> ustr list \<Rightarrow> answer_list" where
  "load_unanswered_row U acc row =
     (if row = [] then acc
      else let displays = displays_of row; matches = matches_of row
        in if displays = [] \<or> matches = [] then acc
           else let norm_disp = normalize_text U (join [45] displays)
             in if norm_disp = [] then acc
                else acc\<lparr>items := items acc @ [norm_disp],
                  match_map := AList.update norm_disp (normalize_text U (concat matches)) (match_map acc),
                  class_map := AList.update norm_disp (normalize_text U (hd matches)) (class_map acc),
                  element_map := AList.update norm_disp (normalize_text U (last matches)) (element_map acc),
                  display_map := AList.update norm_disp (displays, matches) (display_map acc)\<rparr>)"

text \<open>The body of the second loop (rows after the separator).\<close>

definition load_answered_row :: "unicode_tables \<Rightarrow> answer_list \<Rightarrow> ustr list \<Rightarrow> answer_list" where
  "load_answered_row U acc row =
     (if row = [] then acc
      else let displays = displays_of row; matches = matches_of row
        in if displays = [] \<or> matches = [] then acc
           else let norm_disp = normalize_text U (join [45] displays)
             in if norm_disp = [] then acc
                else let acc1 = (if norm_disp \<notin> set (items acc)
                       then acc\<lparr>items := items acc @ [norm_disp],
                         match_map := AList.update norm_disp (normalize_text U (concat matches)) (match_map acc),
                         class_map := AList.update norm_disp (normalize_text U (hd matches)) (class_map acc),
                         element_map := AList.update norm_disp (normalize_text U (last matches)) (element_map acc)\<rparr>
                       else acc);
                     acc2 = (if map_of (display_map acc1) norm_disp = None
                       then acc1\<lparr>display_map := AList.update norm_disp (displays, matches) (display_map acc1)\<rparr>
                       else acc1)
                  in acc2\<lparr>used := insert norm_disp (used acc2)\<rparr>)"

definition empty_answer_list :: answer_list where
  "empty_answer_list =
     \<lparr>items = [], used = {}, match_map = [], class_map = [], element_map = [], display_map = []\<rparr>"

definition load_from_csv :: "unicode_tables \<Rightarrow> ustr list list \<Rightarrow> answer_list" where
  "load_from_csv U rows =
     (let separator = separator_idx rows;
          end_idx = (case separator of None \<Rightarrow> length rows | Some i \<Rightarrow> i);
          acc = foldl (load_unanswered_row U) empty_answer_list (take end_idx rows)
      in case separator of
           None \<Rightarrow> acc
         | Some i \<Rightarrow> foldl (load_answered_row U) acc (drop (i + 1) rows))"

text \<open>
  \<open>AnswerList.save_to_csv\<close>: the rows handed to \<open>writer.writerow\<close>, in order. The row
  of a key interleaves \<open>zip(displays, matches)\<close>; without an entry in \<open>_display_map\<close> it is
  \<open>[norm_disp, self._match_map.get(norm_disp, "")]\<close>.
\<close>

definition saved_row :: "answer_list \<Rightarrow> ustr \<Rightarrow> ustr list" where
  "saved_row al norm_disp =
     (case map_of (display_map al) norm_disp of
        Some (displays, matches) \<Rightarrow> concat (map (\<lambda>(d, m). [d, m]) (zip displays matches))
      | None \<Rightarrow> [norm_disp, (case map_of (match_map al) norm_disp of Some m \<Rightarrow> m | None \<Rightarrow> [])])"

definition save_to_csv :: "answer_list \<Rightarrow> ustr list list" where
  "save_to_csv al =
     map (saved_row al) (filter (\<lambda>norm_disp. norm_disp \<notin> used al) (items al)) @ [[]] @
     map (saved_row al) (filter (\<lambda>norm_disp. norm_disp \<in> used al) (items al))"


section \<open>Players (\<open>model/player.py\<close>)\<close>

text \<open>
  \<open>AnswerRecord\<close>. Its two time stamps are read from the system clocks when the record
  is made and are never read again; they are left out.
\<close>

record answer_record =
  text_of :: ustr
  is_correct :: bool

text \<open>
  The dataclass \<open>Player\<close>. The field \<open>id\<close> is \<open>pid\<close> here. \<open>remaining_ms\<close> is the
  attribute \<open>_remaining_ms\<close>, which the controller attaches to the object: \<open>None\<close> while
  the attribute does not exist.
\<close>

record player =
  pid :: ustr
  name :: ustr
  base_seconds :: int
  pass_limit :: int
  wrong_answer_limit :: int
  remaining_passes :: int
  remaining_wrong_answers :: int
  eliminated :: bool
  correct_answers :: "answer_record list"
  wrong_answers :: "answer_record list"
  remaining_ms :: "int option"

text \<open>
  The constructor call \<open>Player(id=.., name=.., base_seconds=.., pass_limit=..,
  wrong_answer_limit=..)\<close> with the defaults of the other fields.
\<close>

definition make_player :: "ustr \<Rightarrow> ustr \<Rightarrow> int \<Rightarrow> int \<Rightarrow> int \<Rightarrow> player" where
  "make_player new_id nm base passes wrongs =
     \<lparr>pid = new_id, name = nm, base_seconds = base, pass_limit = passes,
      wrong_answer_limit = wrongs, remaining_passes = 0, remaining_wrong_answers = 0,
      eliminated = False, correct_answers = [], wrong_answers = [], remaining_ms = None\<rparr>"

definition reset_runtime :: "player \<Rightarrow> player" where
  "reset_runtime p =
     p\<lparr>remaining_passes := pass_limit p, remaining_wrong_answers := wrong_answer_limit p,
       eliminated := False, correct_answers := [], wrong_answers := []\<rparr>"

text \<open>\<open>Player.consume_wrong_answer\<close>: the returned flag and the player afterwards.\<close>

definition consume_wrong_answer :: "player \<Rightarrow> bool \<times> player" where
  "consume_wrong_answer p =
     (if remaining_wrong_answers p > 0
      then (True, p\<lparr>remaining_wrong_answers := remaining_wrong_answers p - 1\<rparr>)
      else (False, p))"

definition reset_wrong_answers :: "player \<Rightarrow> player" where
  "reset_wrong_answers p = p\<lparr>remaining_wrong_answers := wrong_answer_limit p\<rparr>"

definition can_pass :: "player \<Rightarrow> bool" where
  "can_pass p \<longleftrightarrow> remaining_passes p > 0"

definition consume_pass :: "player \<Rightarrow> bool \<times> player" where
  "consume_pass p =
     (if can_pass p then (True, p\<lparr>remaining_passes := remaining_passes p - 1\<rparr>)
      else (False, p))"

definition record_answer :: "unicode_tables \<Rightarrow> ustr \<Rightarrow> bool \<Rightarrow> player \<Rightarrow> player" where
  "record_answer U text correct p =
     (let rec = \<lparr>text_of = normalize_text U text, is_correct = correct\<rparr>
      in if correct then p\<lparr>correct_answers := correct_answers p @ [rec]\<rparr>
         else p\<lparr>wrong_answers := wrong_answers p @ [rec]\<rparr>)"

text \<open>\<open>getattr(p, '_remaining_ms', 0)\<close>.\<close>

definition get_remaining_ms :: "player \<Rightarrow> int" where
  "get_remaining_ms p = (case remaining_ms p of None \<Rightarrow> 0 | Some r \<Rightarrow> r)"

section \<open>The turn engine (\<open>controller/game_controller.py\<close>)\<close>

subsection \<open>State and observers\<close>

text \<open>
  The callbacks are the engine's output. Each call of a callback is recorded as an
  event, in order, as if an observer were registered on every channel; observers are
  taken not to raise. The texts of the notifications are represented by their kind and
  the values formatted into them, one constructor for each text of the source:
  \<open>MsgNoPlayers\<close> is the text used by \<open>start_game\<close> and by
  \<open>_advance_turn_after_event\<close>, \<open>MsgPlayerNotFound\<close> the one used by
  \<open>remove_player\<close>, \<open>move_player\<close> and \<open>forfeit_player\<close>, and
  \<open>MsgNoCurrentPlayer\<close> the one used by \<open>host_submit_answer\<close> and \<open>host_pass\<close>.
\<close>

datatype level = Info | Error

datatype message =
    MsgNameLength | MsgDuplicateName ustr | MsgPlayerAdded ustr
  | MsgRemoved nat | MsgPlayerNotFound ustr
  | MsgNeedAnswerList | MsgNoPlayers | MsgGameStart | MsgGameStop
  | MsgNoCurrentPlayer | MsgAnswerListNotLoaded | MsgNothingToUnmark
  | MsgCorrect ustr ustr | MsgWrongLimit ustr | MsgWrong ustr ustr int
  | MsgPassUsed ustr int | MsgNoPassLeft
  | MsgUnmarked ustr | MsgNotAnswered ustr
  | MsgTimeout ustr | MsgNoActivePlayer
  | MsgForfeit ustr | MsgSkipNotCurrent | MsgSkipped ustr
  | MsgLoaded nat | MsgLoadError

datatype sound = Correct | Wrong

datatype event =
    Notification level message
  | PlayerAdded player
  | PlayerState ustr int int int bool
  | GameEnded string
  | AnswerListLoaded nat
  | AnswersUpdated "ustr list" "ustr list"
  | SoundEvent sound
  | AllPlayers "player list"
  | CurrentPlayer "ustr option"
  | RunningState bool

text \<open>
  The fields of \<open>GameController\<close>. A player object is identified by its position in
  \<open>players\<close>. Clock readings (\<open>time.monotonic()\<close>, a float) are real numbers.
  \<open>_answer_list_title\<close>, taken from the file name, is not modelled.

  One observer of the application calls back into the controller: \<open>_on_player_state\<close>
  of \<open>ui/windows.py\<close>, registered on \<open>on_player_state\<close>, calls
  \<open>controller.current_player()\<close>, which persists \<open>current_idx\<close>. The field
  \<open>observer_resolves\<close> tells whether the observer registered on that channel does so
  (\<open>True\<close>) or is inert (\<open>False\<close>). The observers of the other channels do not
  call the controller.
\<close>

record game_controller =
  players :: "player list"
  answer_list :: "answer_list option"
  current_idx :: int
  is_running :: bool
  last_tick_monotonic :: "real option"
  answered_order :: "ustr list"
  last_answered_class :: "ustr option"
  events :: "event list"
  observer_resolves :: bool

definition initial_controller :: game_controller where
  "initial_controller =
     \<lparr>players = [], answer_list = None, current_idx = 0, is_running = False,
      last_tick_monotonic = None, answered_order = [], last_answered_class = None,
      events = [], observer_resolves = False\<rparr>"

definition emit :: "event \<Rightarrow> game_controller \<Rightarrow> game_controller" where
  "emit e s = s\<lparr>events := events s @ [e]\<rparr>"

definition notify :: "level \<Rightarrow> message \<Rightarrow> game_controller \<Rightarrow> game_controller" where
  "notify lv m s = emit (Notification lv m) s"

definition emit_all_players :: "game_controller \<Rightarrow> game_controller" where
  "emit_all_players s = emit (AllPlayers (players s)) s"

definition emit_running_state :: "game_controller \<Rightarrow> game_controller" where
  "emit_running_state s = emit (RunningState (is_running s)) s"

subsection \<open>Active-player resolution\<close>

text \<open>
  \<open>GameController.current_player\<close>: the loop \<open>for i in range(n)\<close> over
  \<open>idx = (self.current_idx + i) % n\<close>. It returns the position of the player found and
  the controller with \<open>current_idx\<close> persisted.
\<close>

definition scan_from :: "player list \<Rightarrow> int \<Rightarrow> nat list \<Rightarrow> nat option" where
  "scan_from ps cur offsets =
     List.find (\<lambda>idx. \<not> eliminated (ps ! idx))
       (map (\<lambda>i. nat ((cur + int i) mod int (length ps))) offsets)"

definition current_player :: "game_controller \<Rightarrow> nat option \<times> game_controller" where
  "current_player s =
     (let n = length (players s)
      in if n = 0 then (None, s)
         else case scan_from (players s) (current_idx s) [0..<n] of
                Some idx \<Rightarrow> (Some idx, s\<lparr>current_idx := int idx\<rparr>)
              | None \<Rightarrow> (None, s))"

text \<open>
  \<open>register_player_state\<close>: \<open>resolves\<close> tells whether the observer handed over calls
  \<open>current_player()\<close>.
\<close>

definition register_player_state :: "bool \<Rightarrow> game_controller \<Rightarrow> game_controller" where
  "register_player_state resolves s = s\<lparr>observer_resolves := resolves\<rparr>"

text \<open>
  \<open>_emit_player_state\<close>: the call of the observer, followed by the observer's own call
  of \<open>current_player()\<close> if it makes one.
\<close>

definition emit_player_state :: "player \<Rightarrow> game_controller \<Rightarrow> game_controller" where
  "emit_player_state p s =
     (let s1 = emit (PlayerState (name p) (get_remaining_ms p) (remaining_passes p)
                 (remaining_wrong_answers p) (eliminated p)) s
      in if observer_resolves s1 then snd (current_player s1) else s1)"

text \<open>\<open>_emit_current_player\<close> calls \<open>current_player()\<close> and so persists the index too.\<close>

definition emit_current_player :: "game_controller \<Rightarrow> game_controller" where
  "emit_current_player s =
     (let (cp, s1) = current_player s
      in emit (CurrentPlayer (map_option (\<lambda>i. name (players s1 ! i)) cp)) s1)"

definition name_exists :: "unicode_tables \<Rightarrow> ustr \<Rightarrow> game_controller \<Rightarrow> bool" where
  "name_exists U nm s \<longleftrightarrow>
     list_ex (\<lambda>p. normalize_text U (name p) = normalize_text U nm) (players s)"

text \<open>\<open>max(0, min(self.current_idx, max(0, len(self.players)-1)))\<close>.\<close>

definition clamp_idx :: "game_controller \<Rightarrow> game_controller" where
  "clamp_idx s = s\<lparr>current_idx := max 0 (min (current_idx s) (max 0 (int (length (players s)) - 1)))\<rparr>"

subsection \<open>Catalog and roster operations\<close>

text \<open>
  \<open>load_csv\<close>: \<open>file\<close> is the rows read from the file, or \<open>None\<close> when copying or
  reading it raised (the \<open>except\<close> branch).
\<close>

definition load_csv :: "unicode_tables \<Rightarrow> ustr list list option \<Rightarrow> game_controller \<Rightarrow> game_controller" where
  "load_csv U file s =
     (case file of
        None \<Rightarrow> notify Error MsgLoadError s
      | Some rows \<Rightarrow>
          let al = load_from_csv U rows;
              s1 = s\<lparr>answer_list := Some al,
                     answered_order := filter (\<lambda>i. i \<in> used al) (items al)\<rparr>;
              s2 = emit (AnswerListLoaded (length (items al))) s1;
              s3 = emit (AnswersUpdated (filter (\<lambda>i. i \<notin> used al) (items al))
                     (rev (answered_order s2))) s2
          in emit_all_players (notify Info (MsgLoaded (length (items al))) s3))"

text \<open>\<open>add_player\<close>: \<open>new_id\<close> is the identifier drawn by \<open>uuid.uuid4()\<close>.\<close>

definition add_player :: "unicode_tables \<Rightarrow> ustr \<Rightarrow> ustr \<Rightarrow> int \<Rightarrow> int \<Rightarrow> int \<Rightarrow> game_controller \<Rightarrow> game_controller" where
  "add_player U new_id nm base passes wrongs s =
     (if nm = [] \<or> length nm > 60 then notify Error MsgNameLength s
      else if name_exists U nm s then notify Error (MsgDuplicateName nm) s
      else let p = reset_runtime (make_player new_id nm base passes wrongs);
               s1 = s\<lparr>players := players s @ [p]\<rparr>
           in emit_current_player (emit_all_players
                (notify Info (MsgPlayerAdded nm) (emit (PlayerAdded p) s1))))"

definition remove_player :: "unicode_tables \<Rightarrow> ustr \<Rightarrow> game_controller \<Rightarrow> game_controller" where
  "remove_player U nm s =
     (let before = length (players s);
          s1 = s\<lparr>players := filter (\<lambda>p. normalize_text U (name p) \<noteq> normalize_text U nm) (players s)\<rparr>;
          removed = before - length (players s1);
          s2 = (if removed > 0 then notify Info (MsgRemoved removed) s1
                else notify Error (MsgPlayerNotFound nm) s1)
      in emit_current_player (emit_all_players (clamp_idx s2)))"


subsection \<open>Starting, stopping and advancing the turn\<close>

definition update_player :: "nat \<Rightarrow> (player \<Rightarrow> player) \<Rightarrow> game_controller \<Rightarrow> game_controller" where
  "update_player i f s = s\<lparr>players := (players s)[i := f (players s ! i)]\<rparr>"

text \<open>\<open>start_game\<close>: \<open>now\<close> is the reading of \<open>time.monotonic()\<close>.\<close>

definition start_game :: "real \<Rightarrow> game_controller \<Rightarrow> game_controller" where
  "start_game now s =
     (if answer_list s = None then notify Error MsgNeedAnswerList s
      else if players s = [] then notify Error MsgNoPlayers s
      else let s1 = s\<lparr>players := map (\<lambda>p. (reset_runtime p)\<lparr>remaining_ms := Some (base_seconds p * 1000)\<rparr>) (players s),
                     current_idx := 0, is_running := True, last_tick_monotonic := Some now\<rparr>;
               s2 = emit_running_state (emit_current_player (emit_all_players
                      (notify Info MsgGameStart s1)));
               (cp, s3) = current_player s2
           in case cp of Some i \<Rightarrow> emit_player_state (players s3 ! i) s3 | None \<Rightarrow> s3)"

definition stop_game :: "game_controller \<Rightarrow> game_controller" where
  "stop_game s =
     emit_running_state (emit_current_player (emit_all_players
       (emit (GameEnded ''stopped'') (notify Info MsgGameStop (s\<lparr>is_running := False\<rparr>)))))"

text \<open>\<open>_end_if_finished\<close>: the flag returned and the controller afterwards.\<close>

definition end_if_finished :: "game_controller \<Rightarrow> bool \<times> game_controller" where
  "end_if_finished s =
     (if players s \<noteq> [] \<and> list_all eliminated (players s) then (True, stop_game s)
      else if (case answer_list s of None \<Rightarrow> False | Some al \<Rightarrow> remaining_count al = 0)
        then (True, stop_game s)
      else (False, s))"

text \<open>
  \<open>_advance_turn_after_event(reason)\<close>. The loop \<open>for i in range(1, n + 1)\<close> keeps
  \<open>current_idx\<close> when it finds nobody. The body never reads \<open>reason\<close>.
\<close>

definition advance_turn_after_event :: "string \<Rightarrow> game_controller \<Rightarrow> game_controller" where
  "advance_turn_after_event reason s =
     (let (finished, s1) = end_if_finished s
      in if finished then s1
         else let n = length (players s1)
           in if n = 0 then notify Info MsgNoPlayers s1
              else let s2 = (case scan_from (players s1) (current_idx s1) [1..<n + 1] of
                               Some cand \<Rightarrow> s1\<lparr>current_idx := int cand\<rparr>
                             | None \<Rightarrow> s1);
                       (np, s3) = current_player s2;
                       s4 = (case np of
                               Some i \<Rightarrow>
                                 let s' = update_player i
                                       (\<lambda>p. p\<lparr>remaining_ms := Some (base_seconds p * 1000)\<rparr>) s3
                                 in emit_player_state (players s' ! i) s'
                             | None \<Rightarrow> s3)
                   in emit_current_player (emit_all_players s4))"

subsection \<open>Submitting an answer\<close>

text \<open>
  \<open>str.rfind\<close> for a single character (\<open>-1\<close> when absent) and the slice
  \<open>text[a:b]\<close> for \<open>0 \<le> a\<close> and \<open>0 \<le> b\<close>.
\<close>

definition rfind :: "nat \<Rightarrow> ustr \<Rightarrow> int" where
  "rfind c text =
     (case List.find (\<lambda>i. text ! i = c) (rev [0..<length text]) of
        Some i \<Rightarrow> int i | None \<Rightarrow> - 1)"

definition slice :: "ustr \<Rightarrow> int \<Rightarrow> int \<Rightarrow> ustr" where
  "slice text a b = take (nat b - nat a) (drop (nat a) text)"

text \<open>
  The extraction at the head of \<open>host_submit_answer\<close> (the value of \<open>answer_text\<close>).
  65288 and 65289 are the full-width parentheses, 40 and 41 the ASCII ones.
\<close>

definition answer_text_of :: "ustr \<Rightarrow> ustr" where
  "answer_text_of text =
     (if 65288 \<in> set text \<and> 65289 \<in> set text then
        (let start = rfind 65288 text; stop = rfind 65289 text
         in if start < stop then slice text (start + 1) stop else text)
      else if 40 \<in> set text \<and> 41 \<in> set text then
        (let start = rfind 40 text; stop = rfind 41 text
         in if start < stop then slice text (start + 1) stop else text)
      else text)"

text \<open>
  The fall-back of the classification memory: the values of \<open>_class_map\<close>, longest
  first, and the first non-empty one that \<open>t_norm\<close> starts with. Two prefixes of
  \<open>t_norm\<close> of the same length are equal, so the iteration order of the \<open>set\<close> has no
  influence: the result is the longest non-empty value that is a prefix of \<open>t_norm\<close>.
\<close>

definition infer_class :: "(ustr \<times> ustr) list \<Rightarrow> ustr \<Rightarrow> ustr option" where
  "infer_class cm t_norm =
     (let cands = filter (\<lambda>cv. cv \<noteq> [] \<and> take (length cv) t_norm = cv) (map snd cm);
          longest = foldl (\<lambda>best cv. if length best < length cv then cv else best) [] cands
      in if longest = [] then None else Some longest)"

text \<open>The block "attempt to infer and remember classification prefix".\<close>

definition remember_class :: "unicode_tables \<Rightarrow> answer_list \<Rightarrow> ustr \<Rightarrow> ustr option \<Rightarrow> game_controller \<Rightarrow> game_controller" where
  "remember_class U al answer_text matched_disp s =
     (if truthy matched_disp then
        (if truthy (map_of (class_map al) (the matched_disp))
         then s\<lparr>last_answered_class := map_of (class_map al) (the matched_disp)\<rparr> else s)
      else (case infer_class (class_map al) (normalize_text U answer_text) of
              Some cv \<Rightarrow> s\<lparr>last_answered_class := Some cv\<rparr>
            | None \<Rightarrow> s))"

text \<open>The branch \<open>if is_correct:\<close>, up to the two final emissions.\<close>

definition accept_answer :: "unicode_tables \<Rightarrow> nat \<Rightarrow> ustr \<Rightarrow> ustr \<Rightarrow> ustr option \<Rightarrow> ustr option \<Rightarrow> answer_list \<Rightarrow> game_controller \<Rightarrow> game_controller" where
  "accept_answer U i text answer_text prev_class matched_disp al s =
     (let (marked, al1) = mark_used U al answer_text prev_class;
          used_disp = (if truthy marked then marked else matched_disp);
          s1 = s\<lparr>answer_list := Some al1\<rparr>;
          s2 = (if truthy used_disp \<and> the used_disp \<notin> set (answered_order s1)
                then s1\<lparr>answered_order := answered_order s1 @ [the used_disp]\<rparr> else s1);
          s3 = emit (SoundEvent Correct)
                 (emit (AnswersUpdated (filter (\<lambda>k. k \<notin> used al1) (items al1))
                    (rev (answered_order s2))) s2);
          s4 = update_player i reset_wrong_answers s3;
          s5 = (if answered_order s4 \<noteq> [] \<and>
                   truthy (map_of (class_map al1) (last (answered_order s4)))
                then s4\<lparr>last_answered_class := map_of (class_map al1) (last (answered_order s4))\<rparr>
                else s4);
          p = players s5 ! i
      in advance_turn_after_event ''correct''
           (emit_player_state p (notify Info (MsgCorrect (name p) text) s5)))"

text \<open>The branch \<open>else:\<close> (an incorrect answer), up to the two final emissions.\<close>

definition reject_answer :: "nat \<Rightarrow> ustr \<Rightarrow> game_controller \<Rightarrow> game_controller" where
  "reject_answer i text s =
     (let (ok, p1) = consume_wrong_answer (players s ! i)
      in if \<not> ok then
           (let p2 = p1\<lparr>eliminated := True\<rparr>
            in advance_turn_after_event ''wrong_limit''
                 (emit_player_state p2 (notify Info (MsgWrongLimit (name p2))
                    (s\<lparr>players := (players s)[i := p2]\<rparr>))))
         else emit (SoundEvent Wrong)
                (emit_player_state p1
                   (notify Info (MsgWrong (name p1) text (remaining_wrong_answers p1))
                      (s\<lparr>players := (players s)[i := p1]\<rparr>))))"

definition host_submit_answer :: "unicode_tables \<Rightarrow> ustr \<Rightarrow> game_controller \<Rightarrow> game_controller" where
  "host_submit_answer U text s =
     (let (cp, s1) = current_player s
      in case cp of
           None \<Rightarrow> notify Error MsgNoCurrentPlayer s1
         | Some i \<Rightarrow>
             (case answer_list s1 of
                None \<Rightarrow> notify Error MsgAnswerListNotLoaded s1
              | Some al \<Rightarrow>
                  let answer_text = answer_text_of text;
                      prev_class = last_answered_class s1;
                      matched_disp = find_match U al answer_text prev_class;
                      correct = (matched_disp \<noteq> None);
                      s2 = update_player i (record_answer U text correct) s1;
                      s3 = remember_class U al answer_text matched_disp s2;
                      s4 = (if correct
                            then accept_answer U i text answer_text prev_class matched_disp al s3
                            else reject_answer i text s3)
                  in emit_current_player (emit_all_players s4)))"


subsection \<open>Pass, unmark and tick\<close>

definition host_pass :: "game_controller \<Rightarrow> game_controller" where
  "host_pass s =
     (let (cp, s1) = current_player s
      in case cp of
           None \<Rightarrow> notify Error MsgNoCurrentPlayer s1
         | Some i \<Rightarrow>
             let (ok, p1) = consume_pass (players s1 ! i);
                 s2 = (if ok
                       then advance_turn_after_event ''pass''
                              (emit_player_state p1
                                 (notify Info (MsgPassUsed (name p1) (remaining_passes p1))
                                    (s1\<lparr>players := (players s1)[i := p1]\<rparr>)))
                       else notify Info MsgNoPassLeft s1)
             in emit_current_player (emit_all_players s2))"

text \<open>
  \<open>unmark_answer\<close>: the flag returned and the controller afterwards.
  \<open>list.remove\<close> deletes the first occurrence only.
\<close>

definition unmark_answer :: "ustr \<Rightarrow> game_controller \<Rightarrow> bool \<times> game_controller" where
  "unmark_answer display_key s =
     (case answer_list s of
        None \<Rightarrow> (False, notify Error MsgNothingToUnmark s)
      | Some al \<Rightarrow>
          if display_key \<in> used al then
            (let al1 = al\<lparr>used := used al - {display_key}\<rparr>;
                 s1 = s\<lparr>answer_list := Some al1,
                        answered_order := remove1 display_key (answered_order s)\<rparr>;
                 s2 = emit (AnswersUpdated (filter (\<lambda>k. k \<notin> used al1) (items al1))
                        (rev (answered_order s1))) s1
             in (True, notify Info (MsgUnmarked display_key) s2))
          else (False, notify Info (MsgNotAnswered display_key) s))"

text \<open>\<open>int(x)\<close> on a float: truncation towards zero.\<close>

definition py_int :: "real \<Rightarrow> int" where
  "py_int x = (if 0 \<le> x then \<lfloor>x\<rfloor> else \<lceil>x\<rceil>)"

text \<open>\<open>tick\<close>: \<open>now\<close> is the reading of \<open>time.monotonic()\<close>.\<close>

definition tick :: "real \<Rightarrow> game_controller \<Rightarrow> game_controller" where
  "tick now s =
     (if \<not> is_running s then s
      else case last_tick_monotonic s of
             None \<Rightarrow> s\<lparr>last_tick_monotonic := Some now\<rparr>
           | Some last_tick \<Rightarrow>
               let elapsed = now - last_tick;
                   (cp, s1) = current_player (s\<lparr>last_tick_monotonic := Some now\<rparr>)
               in (case cp of
                    None \<Rightarrow>
                      emit_current_player (emit_all_players
                        (snd (end_if_finished (notify Info MsgNoActivePlayer s1))))
                  | Some i \<Rightarrow>
                      let p = players s1 ! i;
                          p1 = p\<lparr>remaining_ms :=
                                 Some (max 0 (get_remaining_ms p - py_int (elapsed * 1000)))\<rparr>
                      in if get_remaining_ms p1 = 0 then
                           (let p2 = p1\<lparr>eliminated := True\<rparr>
                            in emit_current_player (emit_all_players
                                 (advance_turn_after_event ''timeout''
                                    (emit_player_state p2 (notify Info (MsgTimeout (name p2))
                                       (s1\<lparr>players := (players s1)[i := p2]\<rparr>))))))
                         else emit_current_player (emit_all_players
                                (emit_player_state p1 (s1\<lparr>players := (players s1)[i := p1]\<rparr>)))))"

subsection \<open>Reordering the roster\<close>

datatype py_error = TypeError

text \<open>
  \<open>reorder_players_by_name\<close>. \<open>Player\<close> is a plain \<open>@dataclass\<close> (\<open>eq=True\<close>, not
  frozen), so its \<open>__hash__\<close> is \<open>None\<close> and its objects are unhashable. The method
  builds \<open>used = set()\<close> and evaluates \<open>p not in used\<close> on a player: in the first loop
  for the first name that is found, and otherwise in the second loop for the first
  player. Either raises \<open>TypeError\<close>, before \<open>self.players\<close> is assigned. So after the
  guard \<open>if not names or not self.players: return\<close> every path raises.
\<close>

definition reorder_players_by_name :: "ustr list \<Rightarrow> game_controller \<Rightarrow> py_error + game_controller" where
  "reorder_players_by_name names s =
     (if names = [] \<or> players s = [] then Inr s else Inl TypeError)"

text \<open>The position of the first element that satisfies \<open>P\<close> (a loop with \<open>break\<close>).\<close>

fun first_index :: "('a \<Rightarrow> bool) \<Rightarrow> 'a list \<Rightarrow> nat option" where
  "first_index P [] = None"
| "first_index P (x # xs) = (if P x then Some 0 else map_option Suc (first_index P xs))"

text \<open>
  \<open>move_player\<close>. The insertion point: the target clamped to \<open>0..n\<close>, one less when
  it lies after the original position.
\<close>

definition insert_position :: "int \<Rightarrow> nat \<Rightarrow> nat \<Rightarrow> int" where
  "insert_position target_index orig_idx n =
     (let target = max 0 (min target_index (int n))
      in if target > int orig_idx then target - 1 else target)"

text \<open>
  \<open>p = self.players.pop(orig_idx)\<close>, the clamp of \<open>insert_at\<close> to the shortened list
  and \<open>self.players.insert(insert_at, p)\<close>.
\<close>

definition pop_insert :: "player list \<Rightarrow> nat \<Rightarrow> int \<Rightarrow> player list" where
  "pop_insert ps orig_idx insert_at =
     (let p = ps ! orig_idx;
          popped = take orig_idx ps @ drop (Suc orig_idx) ps;
          pos = nat (max 0 (min insert_at (int (length popped))))
      in take pos popped @ [p] @ drop pos popped)"

text \<open>The method does not read \<open>is_running\<close>.\<close>

definition move_player :: "unicode_tables \<Rightarrow> ustr \<Rightarrow> int \<Rightarrow> game_controller \<Rightarrow> game_controller" where
  "move_player U nm target_index s =
     (case first_index (\<lambda>p. normalize_text U (name p) = normalize_text U nm) (players s) of
        None \<Rightarrow> notify Error (MsgPlayerNotFound nm) s
      | Some orig_idx \<Rightarrow>
          let insert_at = insert_position target_index orig_idx (length (players s))
          in if insert_at = int orig_idx then s
             else emit_current_player (emit_all_players (clamp_idx
                    (s\<lparr>players := pop_insert (players s) orig_idx insert_at\<rparr>))))"

subsection \<open>Forfeit and skip\<close>

definition forfeit_player :: "unicode_tables \<Rightarrow> ustr \<Rightarrow> game_controller \<Rightarrow> game_controller" where
  "forfeit_player U nm s =
     (case first_index (\<lambda>p. normalize_text U (name p) = normalize_text U nm) (players s) of
        None \<Rightarrow> notify Error (MsgPlayerNotFound nm) s
      | Some i \<Rightarrow>
          let p2 = (players s ! i)\<lparr>eliminated := True\<rparr>
          in emit_current_player (emit_all_players
               (advance_turn_after_event ''forfeit''
                  (emit_player_state p2 (notify Info (MsgForfeit (name p2))
                     (s\<lparr>players := (players s)[i := p2]\<rparr>))))))"

definition skip_player :: "unicode_tables \<Rightarrow> ustr \<Rightarrow> game_controller \<Rightarrow> game_controller" where
  "skip_player U nm s =
     (let (cp, s1) = current_player s
      in case cp of
           None \<Rightarrow> notify Error MsgSkipNotCurrent s1
         | Some i \<Rightarrow>
             if normalize_text U (name (players s1 ! i)) \<noteq> normalize_text U nm
             then notify Error MsgSkipNotCurrent s1
             else advance_turn_after_event ''skip''
                    (notify Info (MsgSkipped (name (players s1 ! i))) s1))"

subsection \<open>Runs of the engine\<close>

text \<open>
  The public operations as the host can invoke them, \<open>current_player()\<close> among them
  (the application calls it from its button handlers). A call that raises leaves the
  controller as it was.
\<close>

datatype action =
    LoadCsv "ustr list list option"
  | AddPlayer ustr ustr int int int
  | RemovePlayer ustr
  | StartGame real
  | StopGame
  | HostSubmitAnswer ustr
  | HostPass
  | UnmarkAnswer ustr
  | Tick real
  | ReorderPlayersByName "ustr list"
  | MovePlayer ustr int
  | ForfeitPlayer ustr
  | SkipPlayer ustr
  | RegisterPlayerState bool
  | ResolveCurrentPlayer

fun step :: "unicode_tables \<Rightarrow> game_controller \<Rightarrow> action \<Rightarrow> game_controller" where
  "step U s (LoadCsv file) = load_csv U file s"
| "step U s (AddPlayer new_id nm base passes wrongs) = add_player U new_id nm base passes wrongs s"
| "step U s (RemovePlayer nm) = remove_player U nm s"
| "step U s (StartGame now) = start_game now s"
| "step U s StopGame = stop_game s"
| "step U s (HostSubmitAnswer text) = host_submit_answer U text s"
| "step U s HostPass = host_pass s"
| "step U s (UnmarkAnswer display_key) = snd (unmark_answer display_key s)"
| "step U s (Tick now) = tick now s"
| "step U s (ReorderPlayersByName names) =
     (case reorder_players_by_name names s of Inl err \<Rightarrow> s | Inr s1 \<Rightarrow> s1)"
| "step U s (MovePlayer nm target_index) = move_player U nm target_index s"
| "step U s (ForfeitPlayer nm) = forfeit_player U nm s"
| "step U s (SkipPlayer nm) = skip_player U nm s"
| "step U s (RegisterPlayerState resolves) = register_player_state resolves s"
| "step U s ResolveCurrentPlayer = snd (current_player s)"

definition run :: "unicode_tables \<Rightarrow> action list \<Rightarrow> game_controller" where
  "run U acts = foldl (step U) initial_controller acts"


subsection \<open>Sample data\<close>

text \<open>A roster of three players in which only the second is still in the game.\<close>

definition sample_roster :: game_controller where
  "sample_roster = initial_controller
     \<lparr>players := [(make_player (ascii ''id1'') (ascii ''Ann'') 30 0 1)\<lparr>eliminated := True\<rparr>,
                  make_player (ascii ''id2'') (ascii ''Bob'') 30 0 1,
                  (make_player (ascii ''id3'') (ascii ''Cy'') 30 0 1)\<lparr>eliminated := True\<rparr>],
      current_idx := 2\<rparr>"


text \<open>
  A file in which the row of an entry occurs twice before the empty separator row and
  once after it.
\<close>

definition duplicate_rows :: "ustr list list" where
  "duplicate_rows =
     [[ascii ''A'', ascii ''x''], [ascii ''A'', ascii ''x''], [], [ascii ''A'', ascii ''x'']]"

subsection \<open>The matching rules in the words of the specification\<close>

text \<open>
  Full form: the normalized input equals the entry's \<open>fullMatch\<close>. Short form: the
  normalized input equals the entry's \<open>elementKey\<close> and the given previous category
  equals the entry's \<open>categoryKey\<close>; a previous category is given when it is neither
  absent nor empty.
\<close>

definition full_form :: "answer_list \<Rightarrow> ustr \<Rightarrow> ustr \<Rightarrow> bool" where
  "full_form al t d \<longleftrightarrow> map_of (match_map al) d = Some t"

definition short_form :: "answer_list \<Rightarrow> ustr \<Rightarrow> ustr option \<Rightarrow> ustr \<Rightarrow> bool" where
  "short_form al t previousCategory d \<longleftrightarrow>
     map_of (element_map al) d = Some t \<and> truthy previousCategory \<and>
     map_of (class_map al) d = previousCategory"

definition candidate :: "answer_list \<Rightarrow> ustr \<Rightarrow> ustr option \<Rightarrow> ustr \<Rightarrow> bool" where
  "candidate al t previousCategory d \<longleftrightarrow>
     d \<notin> used al \<and> (full_form al t d \<or> short_form al t previousCategory d)"

text \<open>The catalog of the specification's scenario: entries A-X and B-Y.\<close>

definition scenario_catalog :: answer_list where
  "scenario_catalog =
     \<lparr>items = [ascii ''a-x'', ascii ''b-y''], used = {},
      match_map = [(ascii ''a-x'', ascii ''ax''), (ascii ''b-y'', ascii ''by'')],
      class_map = [(ascii ''a-x'', ascii ''a''), (ascii ''b-y'', ascii ''b'')],
      element_map = [(ascii ''a-x'', ascii ''x''), (ascii ''b-y'', ascii ''y'')],
      display_map = [(ascii ''a-x'', ([ascii ''A'', ascii ''X''], [ascii ''a'', ascii ''x''])),
                     (ascii ''b-y'', ([ascii ''B'', ascii ''Y''], [ascii ''b'', ascii ''y'']))]\<rparr>"

subsection \<open>The name check in the words of the specification\<close>


subsection \<open>Parenthetical pairs\<close>

text \<open>
  \<open>interior\<close> is the part of \<open>text\<close> strictly between the last \<open>opening\<close> and the
  last \<open>closing\<close> character, the opening one coming first.
\<close>

definition last_pair :: "nat \<Rightarrow> nat \<Rightarrow> ustr \<Rightarrow> ustr \<Rightarrow> bool" where
  "last_pair opening closing text interior \<longleftrightarrow>
     (\<exists>pre post. text = pre @ opening # interior @ closing # post \<and>
        opening \<notin> set interior \<and> opening \<notin> set post \<and> closing \<notin> set post)"

text \<open>The ASCII parentheses replaced by the full-width ones.\<close>

definition widen :: "nat \<Rightarrow> nat" where
  "widen c = (if c = 40 then 65288 else if c = 41 then 65289 else c)"

subsection \<open>Invariants and auxiliary notions\<close>

text \<open>The consumed keys of the loaded catalog, if any, are among its entries.\<close>

definition catalog_ok :: "game_controller \<Rightarrow> bool" where
  "catalog_ok s \<longleftrightarrow>
     (case answer_list s of None \<Rightarrow> True | Some al \<Rightarrow> used al \<subseteq> set (items al))"

text \<open>
  The player after the countdown step of \<open>tick\<close>:
  \<open>p._remaining_ms = max(0, getattr(p, '_remaining_ms', 0) - int(elapsed * 1000))\<close>.
\<close>

definition ticked :: "real \<Rightarrow> real \<Rightarrow> player \<Rightarrow> player" where
  "ticked now last_tick p =
     p\<lparr>remaining_ms := Some (max 0 (get_remaining_ms p - py_int ((now - last_tick) * 1000)))\<rparr>"

text \<open>
  The player at the start of a turn:
  \<open>np._remaining_ms = int(np.base_seconds * 1000)\<close>.
\<close>

definition turn_reset :: "player \<Rightarrow> player" where
  "turn_reset p = p\<lparr>remaining_ms := Some (base_seconds p * 1000)\<rparr>"

text \<open>
  The state of the specification's scenario after \<open>start_game\<close>: the players P1 and
  P2, each with 30 seconds and one wrong answer allowed, and the catalog A-X, B-Y.
\<close>

definition scenario_game :: game_controller where
  "scenario_game = initial_controller
     \<lparr>players := [(reset_runtime (make_player (ascii ''id1'') (ascii ''P1'') 30 0 1))\<lparr>remaining_ms := Some 30000\<rparr>,
                  (reset_runtime (make_player (ascii ''id2'') (ascii ''P2'') 30 0 1))\<lparr>remaining_ms := Some 30000\<rparr>],
      answer_list := Some scenario_catalog, is_running := True, last_tick_monotonic := Some 0\<rparr>"

text \<open>
  The turn order in the words of the specification: the seats after seat \<open>c\<close> in
  rotation order, seat \<open>c\<close> itself last, and the first of them whose player is still
  in the game.
\<close>

definition next_in_turn :: "player list \<Rightarrow> nat \<Rightarrow> nat option" where
  "next_in_turn ps c =
     List.find (\<lambda>j. \<not> eliminated (ps ! j)) (rotate (Suc c) [0..<length ps])"

text \<open>
  The roster once the wrong answer \<open>inputText\<close> of the player in seat \<open>i\<close> has been
  recorded and the player eliminated.
\<close>

definition strike_out :: "unicode_tables \<Rightarrow> ustr \<Rightarrow> nat \<Rightarrow> player list \<Rightarrow> player list" where
  "strike_out U inputText i ps = ps[i := (record_answer U inputText False (ps ! i))\<lparr>eliminated := True\<rparr>]"

text \<open>The submission of a text that matches no entry of the scenario's catalog.\<close>

definition wrong_guess :: "game_controller \<Rightarrow> game_controller" where
  "wrong_guess = host_submit_answer ascii_tables (ascii ''zz'')"

text \<open>
  A game of three players later on: P1 is the active player with 5 seconds left and no
  wrong answer left, P2 and P3 have 12 and 7 seconds left from their last turns.
\<close>

definition scenario_trio :: game_controller where
  "scenario_trio = initial_controller
     \<lparr>players := [(reset_runtime (make_player (ascii ''id1'') (ascii ''P1'') 30 0 1))
                    \<lparr>remaining_wrong_answers := 0, remaining_ms := Some 5000\<rparr>,
                  (reset_runtime (make_player (ascii ''id2'') (ascii ''P2'') 30 0 1))\<lparr>remaining_ms := Some 12000\<rparr>,
                  (reset_runtime (make_player (ascii ''id3'') (ascii ''P3'') 30 0 1))\<lparr>remaining_ms := Some 7000\<rparr>],
      answer_list := Some scenario_catalog, is_running := True, last_tick_monotonic := Some 0\<rparr>"

text \<open>The same game when P2 and P3 are eliminated already.\<close>

definition scenario_endgame :: game_controller where
  "scenario_endgame = scenario_trio
     \<lparr>players := [players scenario_trio ! 0,
                  (players scenario_trio ! 1)\<lparr>eliminated := True\<rparr>,
                  (players scenario_trio ! 2)\<lparr>eliminated := True\<rparr>]\<rparr>"

text \<open>
  Time allotments and countdowns are not negative (the countdown of a player without
  \<open>_remaining_ms\<close> counts as 0, as \<open>getattr\<close> reads it).
\<close>

definition budgets_ok :: "game_controller \<Rightarrow> bool" where
  "budgets_ok s \<longleftrightarrow> list_all (\<lambda>p. 0 \<le> base_seconds p \<and> 0 \<le> get_remaining_ms p) (players s)"

text \<open>
  The readings of the monotonic clock never decrease: the reference stored by the
  controller, if any, and the readings at the following calls of \<open>tick\<close>.
\<close>

definition clock_ok :: "real option \<Rightarrow> real list \<Rightarrow> bool" where
  "clock_ok last_tick nows = sorted (case last_tick of None \<Rightarrow> nows | Some t \<Rightarrow> t # nows)"

text \<open>The states passed through by successive calls of \<open>tick\<close>.\<close>

fun tick_trace :: "game_controller \<Rightarrow> real list \<Rightarrow> game_controller list" where
  "tick_trace s [] = [s]"
| "tick_trace s (now # nows) = s # tick_trace (tick now s) nows"

text \<open>
  One call of \<open>tick\<close> taking \<open>s\<close> to \<open>s'\<close>: no countdown is negative afterwards, and
  each player's countdown has not increased, unless that player's turn starts (the
  player becomes the active one) with the countdown reset to \<open>base_seconds * 1000\<close>.
\<close>

definition tick_step_ok :: "game_controller \<Rightarrow> game_controller \<Rightarrow> bool" where
  "tick_step_ok s s' \<longleftrightarrow>
     length (players s') = length (players s) \<and>
     (\<forall>k<length (players s).
        0 \<le> get_remaining_ms (players s' ! k) \<and>
        (get_remaining_ms (players s' ! k) \<le> get_remaining_ms (players s ! k) \<or>
         get_remaining_ms (players s' ! k) = base_seconds (players s' ! k) * 1000 \<and>
         fst (current_player s') = Some k \<and> fst (current_player s) \<noteq> Some k))"

subsection \<open>Tabular inputs\<close>

text \<open>A cell that is not blank and carries no white space at either end.\<close>

definition clean_cell :: "ustr \<Rightarrow> bool" where
  "clean_cell c \<longleftrightarrow> c \<noteq> [] \<and> strip c = c"

text \<open>
  A data row in canonical form: a non-empty, even number of clean cells (display and
  match fragments in alternation) whose display key is not empty.
\<close>

definition data_row :: "unicode_tables \<Rightarrow> ustr list \<Rightarrow> bool" where
  "data_row U row \<longleftrightarrow>
     row \<noteq> [] \<and> even (length row) \<and> list_all clean_cell row \<and> norm_disp_of U row \<noteq> []"

text \<open>
  A canonical input consists of the unanswered data rows, the row without cells as
  separator, and the answered data rows; the display keys of all data rows differ.
\<close>

definition canonical_input :: "unicode_tables \<Rightarrow> ustr list list \<Rightarrow> ustr list list \<Rightarrow> bool" where
  "canonical_input U unanswered answered \<longleftrightarrow>
     list_all (data_row U) (unanswered @ answered) \<and>
     distinct (map (norm_disp_of U) (unanswered @ answered))"

text \<open>
  The format in the words of the specification: a record is a flat sequence of cells
  read as alternating (display fragment, match fragment) pairs; a record of only empty
  or white-space cells, or of no cells, is the separator; a well-formed input with a
  separator consists of such records and contains a separator.
\<close>

definition pair_row :: "ustr list \<Rightarrow> bool" where
  "pair_row row \<longleftrightarrow> row \<noteq> [] \<and> even (length row) \<and> list_all (\<lambda>c. strip c \<noteq> []) row"

definition well_formed_input :: "ustr list list \<Rightarrow> bool" where
  "well_formed_input rows \<longleftrightarrow>
     separator_idx rows \<noteq> None \<and> list_all (\<lambda>row. is_separator row \<or> pair_row row) rows"

text \<open>
  Inputs: one whose first cell starts with a space; one that lists the same entry before
  and after the separator; and one in canonical form.
\<close>

definition padded_rows :: "ustr list list" where
  "padded_rows = [[ascii '' A'', ascii ''x''], []]"

definition relisted_rows :: "ustr list list" where
  "relisted_rows = [[ascii ''A'', ascii ''x''], [], [ascii ''A'', ascii ''x'']]"

definition sample_unanswered :: "ustr list list" where
  "sample_unanswered = [[ascii ''A'', ascii ''x'', ascii ''B'', ascii ''y''], [ascii ''C'', ascii ''z'']]"

definition sample_answered :: "ustr list list" where
  "sample_answered = [[ascii ''D'', ascii ''w'']]"

text \<open>
  The chronology holds no key twice, and only consumed keys of the loaded catalog.
\<close>

definition chronology_ok :: "game_controller \<Rightarrow> bool" where
  "chronology_ok s \<longleftrightarrow>
     distinct (answered_order s) \<and>
     set (answered_order s) \<subseteq> (case answer_list s of None \<Rightarrow> {} | Some al \<Rightarrow> used al)"

section \<open>Matching\<close>

lemma find_match_loop_None:
  "find_match_loop al t pc xs = None \<longleftrightarrow> (\<forall>d \<in> set xs. \<not> candidate al t pc d)"
  by (induction xs) (auto simp: candidate_def full_form_def short_form_def)

lemma find_match_loop_Some:
  "find_match_loop al t pc xs = Some d \<Longrightarrow>
     \<exists>pre post. xs = pre @ d # post \<and> (\<forall>e \<in> set pre. \<not> candidate al t pc e) \<and> candidate al t pc d"
proof (induction xs)
  case Nil
  then show ?case by simp
next
  case (Cons x xs)
  show ?case
  proof (cases "candidate al t pc x")
    case True
    with Cons.prems have "d = x"
      by (auto simp: candidate_def full_form_def short_form_def split: if_splits)
    with True have "x # xs = [] @ d # xs \<and> (\<forall>e \<in> set []. \<not> candidate al t pc e) \<and> candidate al t pc d"
      by simp
    then show ?thesis by blast
  next
    case False
    with Cons.prems have "find_match_loop al t pc xs = Some d"
      by (auto simp: candidate_def full_form_def short_form_def split: if_splits)
    from Cons.IH [OF this] obtain pre post where
      "xs = pre @ d # post" "\<forall>e \<in> set pre. \<not> candidate al t pc e" "candidate al t pc d"
      by blast
    with False have "x # xs = (x # pre) @ d # post \<and>
        (\<forall>e \<in> set (x # pre). \<not> candidate al t pc e) \<and> candidate al t pc d"
      by simp
    then show ?thesis by blast
  qed
qed

text \<open>
  C1. \<open>find_match\<close> returns the first entry, in the order of \<open>items\<close>, that is not
  used and satisfies the full-form or the short-form rule on the normalized input, and
  \<open>None\<close> when no entry does. Being a function of the catalog, the text and the previous
  category, its result is determined by them.
\<close>

theorem find_match_first_candidate:
  "case find_match U al inputText previousCategory of
     None \<Rightarrow> \<forall>d \<in> set (items al). \<not> candidate al (normalize_text U inputText) previousCategory d
   | Some d \<Rightarrow> \<exists>pre post. items al = pre @ d # post \<and>
       (\<forall>e \<in> set pre. \<not> candidate al (normalize_text U inputText) previousCategory e) \<and>
       candidate al (normalize_text U inputText) previousCategory d"
proof (cases "find_match_loop al (normalize_text U inputText) previousCategory (items al)")
  case None
  then show ?thesis
    using find_match_loop_None [of al "normalize_text U inputText" previousCategory "items al"]
    by (simp add: find_match_def)
next
  case (Some d)
  then show ?thesis
    using find_match_loop_Some [of al "normalize_text U inputText" previousCategory "items al" d]
    by (simp add: find_match_def)
qed

lemma scenario_short_form_run:
  "find_match ascii_tables scenario_catalog (ascii '' Y '') (Some (ascii ''b'')) = Some (ascii ''b-y'')"
  by (simp add: find_match_def normalize_text_def ascii_tables_def strip_def py_isspace_def
      ascii_def ascii_lower_def scenario_catalog_def truthy_def)

lemma scenario_normalize:
  "normalize_text ascii_tables (ascii '' Y '') = ascii ''y''"
  by (simp add: normalize_text_def ascii_tables_def strip_def py_isspace_def ascii_def
      ascii_lower_def)

theorem find_match_first_candidate_witness:
  "\<exists>pre post. items scenario_catalog = pre @ ascii ''b-y'' # post \<and>
     (\<forall>e \<in> set pre. \<not> candidate scenario_catalog (ascii ''y'') (Some (ascii ''b'')) e) \<and>
     candidate scenario_catalog (ascii ''y'') (Some (ascii ''b'')) (ascii ''b-y'')"
  using find_match_first_candidate [where U = ascii_tables and al = scenario_catalog
      and inputText = "ascii '' Y ''" and previousCategory = "Some (ascii ''b'')"]
  by (simp add: scenario_short_form_run scenario_normalize)

section \<open>Active-player resolution\<close>

lemma emit_fields [simp]:
  "players (emit e s) = players s"
  "answer_list (emit e s) = answer_list s"
  "current_idx (emit e s) = current_idx s"
  "is_running (emit e s) = is_running s"
  "last_tick_monotonic (emit e s) = last_tick_monotonic s"
  "answered_order (emit e s) = answered_order s"
  "last_answered_class (emit e s) = last_answered_class s"
  "events (emit e s) = events s @ [e]"
  "observer_resolves (emit e s) = observer_resolves s"
  by (simp_all add: emit_def)

lemmas emitters = notify_def emit_all_players_def emit_running_state_def

lemma residue_reached:
  assumes "j < n"
  shows "\<exists>k<n. j = nat ((cur + int k) mod int n)"
proof -
  let ?k = "nat ((int j - cur) mod int n)"
  from assms have n: "0 < int n" by simp
  have "?k < n" using n by (simp add: nat_less_iff)
  moreover have "(cur + int ?k) mod int n = int j"
  proof -
    have "(cur + int ?k) mod int n = (cur + (int j - cur) mod int n) mod int n"
      using n by simp
    also have "\<dots> = (cur + (int j - cur)) mod int n"
      by (simp add: mod_add_right_eq)
    also have "\<dots> = int j" using assms by simp
    finally show ?thesis .
  qed
  ultimately show ?thesis by (metis nat_int)
qed

lemma residue_in_range: "0 < n \<Longrightarrow> nat ((cur + int k) mod int n) < n"
  by (simp add: nat_less_iff)

lemma scan_from_Some:
  "scan_from ps cur offs = Some i \<longleftrightarrow>
     (\<exists>k<length offs. i = nat ((cur + int (offs ! k)) mod int (length ps)) \<and> \<not> eliminated (ps ! i) \<and>
        (\<forall>j<k. eliminated (ps ! nat ((cur + int (offs ! j)) mod int (length ps)))))"
  unfolding scan_from_def find_Some_iff by auto

lemma scan_from_None:
  "scan_from ps cur offs = None \<longleftrightarrow>
     (\<forall>k \<in> set offs. eliminated (ps ! nat ((cur + int k) mod int (length ps))))"
  unfolding scan_from_def find_None_iff by auto

lemma scan_all_None:
  assumes "ps \<noteq> []"
  shows "scan_from ps cur [0..<length ps] = None \<longleftrightarrow> (\<forall>p \<in> set ps. eliminated p)"
proof
  assume none: "scan_from ps cur [0..<length ps] = None"
  show "\<forall>p \<in> set ps. eliminated p"
  proof
    fix p assume "p \<in> set ps"
    then obtain j where j: "j < length ps" "ps ! j = p" by (auto simp: in_set_conv_nth)
    from residue_reached [OF j(1), of cur] obtain k where
      "k < length ps" "j = nat ((cur + int k) mod int (length ps))" by blast
    with none j show "eliminated p" by (auto simp: scan_from_None)
  qed
next
  assume all: "\<forall>p \<in> set ps. eliminated p"
  from assms have "0 < length ps" by simp
  then show "scan_from ps cur [0..<length ps] = None"
    using all by (auto simp: scan_from_None residue_in_range)
qed

lemma current_player_snd:
  "snd (current_player s) =
     (case fst (current_player s) of Some i \<Rightarrow> s\<lparr>current_idx := int i\<rparr> | None \<Rightarrow> s)"
  by (simp add: current_player_def Let_def split: option.splits)

lemma current_player_fields [simp]:
  "players (snd (current_player s)) = players s"
  "answer_list (snd (current_player s)) = answer_list s"
  "is_running (snd (current_player s)) = is_running s"
  "last_tick_monotonic (snd (current_player s)) = last_tick_monotonic s"
  "answered_order (snd (current_player s)) = answered_order s"
  "last_answered_class (snd (current_player s)) = last_answered_class s"
  "events (snd (current_player s)) = events s"
  "observer_resolves (snd (current_player s)) = observer_resolves s"
  by (simp_all add: current_player_snd split: option.splits)

lemma emit_player_state_fields [simp]:
  "players (emit_player_state p s) = players s"
  "answer_list (emit_player_state p s) = answer_list s"
  "is_running (emit_player_state p s) = is_running s"
  "last_tick_monotonic (emit_player_state p s) = last_tick_monotonic s"
  "answered_order (emit_player_state p s) = answered_order s"
  "last_answered_class (emit_player_state p s) = last_answered_class s"
  "observer_resolves (emit_player_state p s) = observer_resolves s"
  "events (emit_player_state p s) =
     events s @ [PlayerState (name p) (get_remaining_ms p) (remaining_passes p)
       (remaining_wrong_answers p) (eliminated p)]"
  by (simp_all add: emit_player_state_def Let_def)

lemma current_player_Some:
  assumes "fst (current_player s) = Some i"
  shows "i < length (players s)" and "\<not> eliminated (players s ! i)"
    and "current_idx (snd (current_player s)) = int i"
    and "\<exists>k<length (players s). i = nat ((current_idx s + int k) mod int (length (players s))) \<and>
          (\<forall>j<k. eliminated (players s ! nat ((current_idx s + int j) mod int (length (players s)))))"
proof -
  from assms have n: "players s \<noteq> []"
    by (auto simp: current_player_def)
  with assms have sc: "scan_from (players s) (current_idx s) [0..<length (players s)] = Some i"
    by (auto simp: current_player_def Let_def split: option.splits)
  then obtain k where k: "k < length (players s)"
      "i = nat ((current_idx s + int k) mod int (length (players s)))"
      "\<not> eliminated (players s ! i)"
      "\<forall>j<k. eliminated (players s ! nat ((current_idx s + int j) mod int (length (players s))))"
    by (auto simp: scan_from_Some)
  from n k(2) show "i < length (players s)" by (simp add: residue_in_range)
  from k(3) show "\<not> eliminated (players s ! i)" .
  from assms show "current_idx (snd (current_player s)) = int i"
    by (simp add: current_player_snd)
  from k show "\<exists>k<length (players s). i = nat ((current_idx s + int k) mod int (length (players s))) \<and>
          (\<forall>j<k. eliminated (players s ! nat ((current_idx s + int j) mod int (length (players s)))))"
    by blast
qed

lemma current_player_None:
  "players s \<noteq> [] \<Longrightarrow> fst (current_player s) = None \<longleftrightarrow> (\<forall>p \<in> set (players s). eliminated p)"
  using scan_all_None [of "players s" "current_idx s"]
  by (auto simp: current_player_def Let_def split: option.splits)

text \<open>
  C5. \<open>current_player\<close> on an empty roster returns nobody and changes nothing. On a
  non-empty roster it returns nobody exactly when every player is eliminated; a player
  it returns is not eliminated and is the first non-eliminated one at the positions
  \<open>(current_idx + k) mod n\<close> for \<open>k = 0, 1, .., n - 1\<close>; that position is stored in
  \<open>current_idx\<close>, and nothing else changes.
\<close>

theorem current_player_resolution:
  "(players s = [] \<longrightarrow> current_player s = (None, s)) \<and>
   (players s \<noteq> [] \<longrightarrow>
      (fst (current_player s) = None \<longleftrightarrow> (\<forall>p \<in> set (players s). eliminated p))) \<and>
   (\<forall>i. fst (current_player s) = Some i \<longrightarrow>
      i < length (players s) \<and> \<not> eliminated (players s ! i) \<and>
      (\<exists>k<length (players s).
         i = nat ((current_idx s + int k) mod int (length (players s))) \<and>
         (\<forall>j<k. eliminated (players s ! nat ((current_idx s + int j) mod int (length (players s))))))) \<and>
   snd (current_player s) =
     (case fst (current_player s) of Some i \<Rightarrow> s\<lparr>current_idx := int i\<rparr> | None \<Rightarrow> s)"
proof (intro conjI impI allI)
  assume "players s = []"
  then show "current_player s = (None, s)" by (simp add: current_player_def)
next
  assume "players s \<noteq> []"
  then show "fst (current_player s) = None \<longleftrightarrow> (\<forall>p \<in> set (players s). eliminated p)"
    by (rule current_player_None)
next
  fix i assume "fst (current_player s) = Some i"
  then show "i < length (players s)" by (rule current_player_Some)
next
  fix i assume "fst (current_player s) = Some i"
  then show "\<not> eliminated (players s ! i)" by (rule current_player_Some)
next
  fix i assume "fst (current_player s) = Some i"
  then show "\<exists>k<length (players s).
         i = nat ((current_idx s + int k) mod int (length (players s))) \<and>
         (\<forall>j<k. eliminated (players s ! nat ((current_idx s + int j) mod int (length (players s)))))"
    by (rule current_player_Some)
next
  show "snd (current_player s) =
     (case fst (current_player s) of Some i \<Rightarrow> s\<lparr>current_idx := int i\<rparr> | None \<Rightarrow> s)"
    by (rule current_player_snd)
qed

theorem current_player_resolution_witness:
  "fst (current_player sample_roster) = Some 1 \<and>
   \<not> eliminated (players sample_roster ! 1) \<and>
   snd (current_player sample_roster) = sample_roster\<lparr>current_idx := 1\<rparr> \<and>
   (\<exists>k<length (players sample_roster).
      1 = nat ((current_idx sample_roster + int k) mod int (length (players sample_roster))) \<and>
      (\<forall>j<k. eliminated (players sample_roster !
         nat ((current_idx sample_roster + int j) mod int (length (players sample_roster))))))"
proof -
  have run: "fst (current_player sample_roster) = Some 1"
    by (simp add: current_player_def scan_from_def sample_roster_def initial_controller_def
        make_player_def upt_conv_Cons)
  with current_player_resolution [of sample_roster] show ?thesis
    by simp
qed

section \<open>Adding a player\<close>

lemma emit_current_player_fields [simp]:
  "players (emit_current_player s) = players s"
  "answer_list (emit_current_player s) = answer_list s"
  "is_running (emit_current_player s) = is_running s"
  "last_tick_monotonic (emit_current_player s) = last_tick_monotonic s"
  "answered_order (emit_current_player s) = answered_order s"
  "last_answered_class (emit_current_player s) = last_answered_class s"
  "current_idx (emit_current_player s) = current_idx (snd (current_player s))"
  "events (emit_current_player s) =
     events s @ [CurrentPlayer (map_option (\<lambda>i. name (players s ! i)) (fst (current_player s)))]"
  by (simp_all add: emit_current_player_def case_prod_beta)


lemmas ascii_eval = normalize_text_def ascii_tables_def strip_def py_isspace_def ascii_def
  ascii_lower_def


section \<open>Extraction of the answer text\<close>

lemma find_last_position:
  assumes "t ! m = c" and "\<forall>j. m < j \<and> j < Suc m + k \<longrightarrow> t ! j \<noteq> c"
  shows "List.find (\<lambda>i. t ! i = c) (rev [0..<Suc m + k]) = Some m"
  using assms by (induction k) simp_all

lemma rfind_last:
  assumes "c \<notin> set post"
  shows "rfind c (pre @ c # post) = int (length pre)"
proof -
  define t where "t = pre @ c # post"
  have len: "length t = Suc (length pre) + length post"
    by (simp add: t_def)
  have hit: "t ! length pre = c"
    by (simp add: t_def)
  have miss: "\<forall>j. length pre < j \<and> j < Suc (length pre) + length post \<longrightarrow> t ! j \<noteq> c"
  proof (intro allI impI)
    fix j assume j: "length pre < j \<and> j < Suc (length pre) + length post"
    then have "t ! j = post ! (j - Suc (length pre))"
      by (auto simp: t_def nth_append nth_Cons')
    moreover from j have "post ! (j - Suc (length pre)) \<in> set post"
      by (intro nth_mem) linarith
    ultimately show "t ! j \<noteq> c" using assms by metis
  qed
  from find_last_position [OF hit miss] len show ?thesis
    by (simp add: rfind_def t_def)
qed

lemma rfind_split:
  assumes "c \<in> set text"
  obtains pre post where "text = pre @ c # post" "c \<notin> set post" "rfind c text = int (length pre)"
proof -
  from split_list_last [OF assms] obtain pre post where
    "text = pre @ c # post" "c \<notin> set post" by blast
  with rfind_last [of c post pre] that show thesis by simp
qed

lemma extract_between:
  assumes "last_pair a b text mid" and ab: "a \<noteq> b"
  shows "a \<in> set text" "b \<in> set text" "rfind a text < rfind b text"
    "slice text (rfind a text + 1) (rfind b text) = mid"
proof -
  from assms obtain pre post where t: "text = pre @ a # mid @ b # post"
    and a: "a \<notin> set mid" "a \<notin> set post" and b: "b \<notin> set post"
    by (auto simp: last_pair_def)
  show "a \<in> set text" "b \<in> set text" using t by auto
  have ra: "rfind a text = int (length pre)"
    using rfind_last [of a "mid @ b # post" pre] a ab t by auto
  have "text = (pre @ a # mid) @ b # post" using t by simp
  with rfind_last [of b post "pre @ a # mid"] b
  have rb: "rfind b text = int (length pre + 1 + length mid)" by simp
  show "rfind a text < rfind b text" using ra rb by simp
  show "slice text (rfind a text + 1) (rfind b text) = mid"
    using ra rb t by (simp add: slice_def nat_add_distrib)
qed

lemma ordered_pair_exists:
  assumes "a \<in> set text" "b \<in> set text" "rfind a text < rfind b text"
  shows "\<exists>mid. last_pair a b text mid"
proof -
  from assms(1) obtain pre r1 where a: "text = pre @ a # r1" "a \<notin> set r1"
    "rfind a text = int (length pre)" by (rule rfind_split)
  from assms(2) obtain pre2 post where b: "text = pre2 @ b # post" "b \<notin> set post"
    "rfind b text = int (length pre2)" by (rule rfind_split)
  from assms(3) a(3) b(3) have lt: "length pre < length pre2" by simp
  from a(1) b(1) have eq: "pre @ a # r1 = pre2 @ b # post" by simp
  from lt eq obtain mid where mid: "pre2 = pre @ a # mid"
    by (auto simp: append_eq_append_conv2 Cons_eq_append_conv)
  with eq have r1: "r1 = mid @ b # post" by simp
  from a(2) r1 have "a \<notin> set mid" "a \<notin> set post" by auto
  with b mid have "last_pair a b text mid"
    unfolding last_pair_def by auto
  then show ?thesis ..
qed

lemma rfind_map_inj:
  assumes "inj_on f (insert c (set text))"
  shows "rfind (f c) (map f text) = rfind c text"
proof -
  have "\<And>i. i \<in> set (rev [0..<length text]) \<Longrightarrow> (map f text ! i = f c) = (text ! i = c)"
    using assms by (auto simp: inj_on_def)
  then have "List.find (\<lambda>i. map f text ! i = f c) (rev [0..<length text]) =
      List.find (\<lambda>i. text ! i = c) (rev [0..<length text])"
    by (intro find_cong) auto
  then show ?thesis by (simp add: rfind_def)
qed

lemma widen_inj:
  assumes "65288 \<notin> set text" "65289 \<notin> set text" "c = 40 \<or> c = 41"
  shows "inj_on widen (insert c (set text))"
  using assms by (auto simp: inj_on_def widen_def split: if_splits)

lemma answer_text_of_widen:
  assumes "65288 \<notin> set text" "65289 \<notin> set text"
  shows "answer_text_of (map widen text) = map widen (answer_text_of text)"
proof -
  have o: "65288 \<in> set (map widen text) \<longleftrightarrow> 40 \<in> set text"
    using assms by (auto simp: widen_def split: if_splits)
  have c: "65289 \<in> set (map widen text) \<longleftrightarrow> 41 \<in> set text"
    using assms by (auto simp: widen_def split: if_splits)
  have no: "40 \<notin> set (map widen text)" "41 \<notin> set (map widen text)"
    by (auto simp: widen_def)
  have ro: "rfind 65288 (map widen text) = rfind 40 text"
    using rfind_map_inj [OF widen_inj [OF assms, of 40]] by (simp add: widen_def)
  have rc: "rfind 65289 (map widen text) = rfind 41 text"
    using rfind_map_inj [OF widen_inj [OF assms, of 41]] by (simp add: widen_def)
  have sl: "\<And>a b. slice (map widen text) a b = map widen (slice text a b)"
    by (simp add: slice_def take_map drop_map)
  show ?thesis
    using assms o c no ro rc sl by (simp add: answer_text_of_def Let_def)
qed

text \<open>
  C8, as the code has it. When the text contains both full-width parentheses, the
  matching text is what stands strictly between the last opening and the last closing
  one if they come in that order, and the whole text otherwise; the ASCII parentheses
  are then not looked at. When a full-width parenthesis is missing, the same rule is
  applied to the ASCII parentheses. In every other case the whole text is matched. On a
  text without full-width parentheses, writing the ASCII ones full-width changes the
  extraction in no other way. The text of the scenario (the two kanji of Hyogo followed
  by "aioi" in hiragana between full-width parentheses) gives "aioi".
\<close>

theorem answer_text_of_parentheses:
  "(last_pair 65288 65289 text mid \<longrightarrow> answer_text_of text = mid) \<and>
   (\<not> (65288 \<in> set text \<and> 65289 \<in> set text) \<and> last_pair 40 41 text mid \<longrightarrow>
      answer_text_of text = mid) \<and>
   ((\<forall>m. \<not> last_pair 65288 65289 text m) \<and>
    ((65288 \<in> set text \<and> 65289 \<in> set text) \<or> (\<forall>m. \<not> last_pair 40 41 text m)) \<longrightarrow>
      answer_text_of text = text) \<and>
   (65288 \<notin> set text \<and> 65289 \<notin> set text \<longrightarrow>
      answer_text_of (map widen text) = map widen (answer_text_of text)) \<and>
   answer_text_of [20853, 24235, 65288, 12354, 12356, 12362, 12356, 65289] =
     [12354, 12356, 12362, 12356]"
proof (intro conjI impI)
  assume "last_pair 65288 65289 text mid"
  from extract_between [OF this] show "answer_text_of text = mid"
    by (simp add: answer_text_of_def)
next
  assume "\<not> (65288 \<in> set text \<and> 65289 \<in> set text) \<and> last_pair 40 41 text mid"
  then have n: "\<not> (65288 \<in> set text \<and> 65289 \<in> set text)" and l: "last_pair 40 41 text mid"
    by blast+
  from extract_between [OF l] n show "answer_text_of text = mid"
    by (auto simp: answer_text_of_def)
next
  assume h: "(\<forall>m. \<not> last_pair 65288 65289 text m) \<and>
    ((65288 \<in> set text \<and> 65289 \<in> set text) \<or> (\<forall>m. \<not> last_pair 40 41 text m))"
  then have fw: "\<not> (65288 \<in> set text \<and> 65289 \<in> set text \<and> rfind 65288 text < rfind 65289 text)"
    using ordered_pair_exists [of 65288 "text" 65289] by blast
  from h have "(65288 \<in> set text \<and> 65289 \<in> set text) \<or>
      \<not> (40 \<in> set text \<and> 41 \<in> set text \<and> rfind 40 text < rfind 41 text)"
    using ordered_pair_exists [of 40 "text" 41] by blast
  with fw show "answer_text_of text = text"
    by (auto simp: answer_text_of_def Let_def)
next
  assume "65288 \<notin> set text \<and> 65289 \<notin> set text"
  then show "answer_text_of (map widen text) = map widen (answer_text_of text)"
    using answer_text_of_widen by blast
next
  have "last_pair 65288 65289 [20853, 24235, 65288, 12354, 12356, 12362, 12356, 65289]
      [12354, 12356, 12362, 12356]"
    unfolding last_pair_def
    by (rule exI [of _ "[20853, 24235]"], rule exI [of _ "[]"]) simp
  from extract_between [OF this]
  show "answer_text_of [20853, 24235, 65288, 12354, 12356, 12362, 12356, 65289] =
     [12354, 12356, 12362, 12356]"
    by (simp add: answer_text_of_def)
qed

text \<open>
  The full-width pair wins over an ASCII pair further right: in a full-width pair
  around "a" followed by an ASCII pair around "b", the matching text is "a".
\<close>

theorem answer_text_of_rightmost_counterexample:
  "last_pair 40 41 [65288, 97, 65289, 40, 98, 41] [98] \<and>
   answer_text_of [65288, 97, 65289, 40, 98, 41] \<noteq> [98]"
proof -
  have ascii_pair: "last_pair 40 41 [65288, 97, 65289, 40, 98, 41] [98]"
    unfolding last_pair_def
    by (rule exI [of _ "[65288, 97, 65289]"], rule exI [of _ "[]"]) simp
  have "last_pair 65288 65289 [65288, 97, 65289, 40, 98, 41] [97]"
    unfolding last_pair_def
    by (rule exI [of _ "[]"], rule exI [of _ "[40, 98, 41]"]) simp
  from extract_between [OF this] have "answer_text_of [65288, 97, 65289, 40, 98, 41] = [97]"
    by (simp add: answer_text_of_def)
  with ascii_pair show ?thesis by simp
qed

lemma last_pair_members:
  "last_pair a b t m \<Longrightarrow> a \<in> set t \<and> b \<in> set t"
  by (auto simp: last_pair_def)

theorem answer_text_of_parentheses_witness:
  "last_pair 65288 65289 [65288, 97, 65289, 40, 98, 41] [97] \<and>
   answer_text_of [65288, 97, 65289, 40, 98, 41] = [97] \<and>
   last_pair 40 41 [120, 40, 97, 41] [97] \<and> answer_text_of [120, 40, 97, 41] = [97] \<and>
   answer_text_of [97, 98] = [97, 98] \<and>
   answer_text_of (map widen [120, 40, 97, 41]) = map widen (answer_text_of [120, 40, 97, 41])"
proof -
  have wide: "last_pair 65288 65289 [65288, 97, 65289, 40, 98, 41] [97]"
    unfolding last_pair_def
    by (rule exI [of _ "[]"], rule exI [of _ "[40, 98, 41]"]) simp
  have narrow: "last_pair 40 41 [120, 40, 97, 41] [97]"
    unfolding last_pair_def
    by (rule exI [of _ "[120]"], rule exI [of _ "[]"]) simp
  have nowide: "65288 \<notin> set [120, 40, 97, 41 :: nat] \<and> 65289 \<notin> set [120, 40, 97, 41 :: nat]"
    by simp
  have none: "(\<forall>m. \<not> last_pair 65288 65289 [97, 98] m) \<and> (\<forall>m. \<not> last_pair 40 41 [97, 98] m)"
    using last_pair_members [of 65288 65289 "[97, 98]"] last_pair_members [of 40 41 "[97, 98]"]
    by auto
  note t1 = answer_text_of_parentheses [of "[65288, 97, 65289, 40, 98, 41]" "[97]"]
  note t2 = answer_text_of_parentheses [of "[120, 40, 97, 41]" "[97]"]
  note t3 = answer_text_of_parentheses [of "[97, 98]" "[]"]
  from t1 wide have a: "answer_text_of [65288, 97, 65289, 40, 98, 41] = [97]"
    by (elim conjE) (erule mp)
  from t2 narrow nowide have b: "answer_text_of [120, 40, 97, 41] = [97]"
    by (elim conjE) (simp only: simp_thms)
  from t3 none have c: "answer_text_of [97, 98] = [97, 98]"
    by (elim conjE) (simp only: simp_thms)
  from t2 nowide have d: "answer_text_of (map widen [120, 40, 97, 41]) =
      map widen (answer_text_of [120, 40, 97, 41])"
    by (elim conjE) (simp only: simp_thms)
  from wide a narrow b c d show ?thesis by (intro conjI)
qed

section \<open>The consumed keys are entries\<close>

lemma update_player_fields [simp]:
  "players (update_player i f s) = (players s)[i := f (players s ! i)]"
  "answer_list (update_player i f s) = answer_list s"
  "current_idx (update_player i f s) = current_idx s"
  "is_running (update_player i f s) = is_running s"
  "last_tick_monotonic (update_player i f s) = last_tick_monotonic s"
  "answered_order (update_player i f s) = answered_order s"
  "last_answered_class (update_player i f s) = last_answered_class s"
  "events (update_player i f s) = events s"
  by (simp_all add: update_player_def)

lemma stop_game_fields [simp]:
  "players (stop_game s) = players s"
  "answer_list (stop_game s) = answer_list s"
  "is_running (stop_game s) = False"
  "last_tick_monotonic (stop_game s) = last_tick_monotonic s"
  "answered_order (stop_game s) = answered_order s"
  "last_answered_class (stop_game s) = last_answered_class s"
  by (simp_all add: stop_game_def emitters)

lemma end_if_finished_fields [simp]:
  "players (snd (end_if_finished s)) = players s"
  "answer_list (snd (end_if_finished s)) = answer_list s"
  "last_tick_monotonic (snd (end_if_finished s)) = last_tick_monotonic s"
  "answered_order (snd (end_if_finished s)) = answered_order s"
  "last_answered_class (snd (end_if_finished s)) = last_answered_class s"
  by (simp_all add: end_if_finished_def)

lemma advance_turn_fields [simp]:
  "answer_list (advance_turn_after_event reason s) = answer_list s"
  "last_tick_monotonic (advance_turn_after_event reason s) = last_tick_monotonic s"
  "answered_order (advance_turn_after_event reason s) = answered_order s"
  "last_answered_class (advance_turn_after_event reason s) = last_answered_class s"
  "length (players (advance_turn_after_event reason s)) = length (players s)"
  by (simp_all add: advance_turn_after_event_def Let_def case_prod_beta emitters
      split: option.splits)

lemma find_match_in_items:
  "find_match U al text pc = Some d \<Longrightarrow> d \<in> set (items al)"
  unfolding find_match_def by (drule find_match_loop_Some) auto

lemma mark_used_fields [simp]:
  "items (snd (mark_used U al text pc)) = items al"
  "match_map (snd (mark_used U al text pc)) = match_map al"
  "class_map (snd (mark_used U al text pc)) = class_map al"
  "element_map (snd (mark_used U al text pc)) = element_map al"
  "display_map (snd (mark_used U al text pc)) = display_map al"
  by (simp_all add: mark_used_def Let_def)

lemma mark_used_subset:
  assumes "used al \<subseteq> set (items al)"
  shows "used (snd (mark_used U al text pc)) \<subseteq> set (items (snd (mark_used U al text pc)))"
proof (cases "find_match U al text pc")
  case None
  with assms show ?thesis by (simp add: mark_used_def truthy_def)
next
  case (Some d)
  with assms find_match_in_items [OF Some] show ?thesis
    by (auto simp: mark_used_def truthy_def Let_def)
qed

lemma foldl_preserves:
  assumes "P a" and "\<And>b x. P b \<Longrightarrow> P (f b x)"
  shows "P (foldl f a xs)"
  using assms(1) by (induction xs arbitrary: a) (auto intro: assms(2))

lemma load_unanswered_row_subset:
  "used acc \<subseteq> set (items acc) \<Longrightarrow>
   used (load_unanswered_row U acc row) \<subseteq> set (items (load_unanswered_row U acc row))"
  by (auto simp: load_unanswered_row_def Let_def)

lemma load_answered_row_subset:
  "used acc \<subseteq> set (items acc) \<Longrightarrow>
   used (load_answered_row U acc row) \<subseteq> set (items (load_answered_row U acc row))"
  by (auto simp: load_answered_row_def Let_def)

lemma load_from_csv_subset:
  "used (load_from_csv U rows) \<subseteq> set (items (load_from_csv U rows))"
proof -
  let ?P = "\<lambda>acc. used acc \<subseteq> set (items acc)"
  have start: "?P empty_answer_list" by (simp add: empty_answer_list_def)
  have first: "?P (foldl (load_unanswered_row U) empty_answer_list rs)" for rs
    by (rule foldl_preserves [where P = ?P, OF start]) (rule load_unanswered_row_subset)
  have second: "?P (foldl (load_answered_row U) acc rs)" if "?P acc" for acc rs
    by (rule foldl_preserves [where P = ?P, OF that]) (rule load_answered_row_subset)
  show ?thesis
    unfolding load_from_csv_def Let_def
    by (cases "separator_idx rows") (simp_all add: first second)
qed

lemma remember_class_fields [simp]:
  "players (remember_class U al t m s) = players s"
  "answer_list (remember_class U al t m s) = answer_list s"
  "current_idx (remember_class U al t m s) = current_idx s"
  "is_running (remember_class U al t m s) = is_running s"
  "last_tick_monotonic (remember_class U al t m s) = last_tick_monotonic s"
  "answered_order (remember_class U al t m s) = answered_order s"
  "events (remember_class U al t m s) = events s"
  by (simp_all add: remember_class_def split: option.splits)

lemma accept_answer_answer_list [simp]:
  "answer_list (accept_answer U i text t pc m al s) = Some (snd (mark_used U al t pc))"
  by (simp add: accept_answer_def Let_def case_prod_beta emitters)

lemma reject_answer_fields [simp]:
  "answer_list (reject_answer i text s) = answer_list s"
  "answered_order (reject_answer i text s) = answered_order s"
  "last_answered_class (reject_answer i text s) = last_answered_class s"
  "last_tick_monotonic (reject_answer i text s) = last_tick_monotonic s"
  by (simp_all add: reject_answer_def Let_def case_prod_beta emitters)

lemma mark_used_member:
  "x \<in> used (snd (mark_used U al text pc)) \<Longrightarrow> used al \<subseteq> set (items al) \<Longrightarrow>
   x \<in> set (items al)"
  using mark_used_subset [of al U "text" pc] by auto

lemma host_submit_answer_catalog_ok:
  "catalog_ok s \<Longrightarrow> catalog_ok (host_submit_answer U text s)"
  by (auto simp: catalog_ok_def host_submit_answer_def Let_def case_prod_beta emitters
      split: option.splits dest: mark_used_member)

lemma add_player_answer_list [simp]:
  "answer_list (add_player U new_id nm base passes wrongs s) = answer_list s"
  by (simp add: add_player_def Let_def emitters)

lemma remove_player_answer_list [simp]:
  "answer_list (remove_player U nm s) = answer_list s"
  by (simp add: remove_player_def clamp_idx_def Let_def emitters)

lemma start_game_answer_list [simp]:
  "answer_list (start_game now s) = answer_list s"
  by (simp add: start_game_def Let_def case_prod_beta emitters split: option.splits)

lemma host_pass_answer_list [simp]:
  "answer_list (host_pass s) = answer_list s"
  by (simp add: host_pass_def Let_def case_prod_beta emitters split: option.splits)

lemma tick_not_running: "\<not> is_running s \<Longrightarrow> tick now s = s"
  by (simp add: tick_def)

lemma tick_first:
  "is_running s \<Longrightarrow> last_tick_monotonic s = None \<Longrightarrow>
   tick now s = s\<lparr>last_tick_monotonic := Some now\<rparr>"
  by (simp add: tick_def)

lemma tick_nobody:
  "is_running s \<Longrightarrow> last_tick_monotonic s = Some t0 \<Longrightarrow>
   fst (current_player (s\<lparr>last_tick_monotonic := Some now\<rparr>)) = None \<Longrightarrow>
   tick now s = emit_current_player (emit_all_players (snd (end_if_finished
     (notify Info MsgNoActivePlayer (snd (current_player (s\<lparr>last_tick_monotonic := Some now\<rparr>)))))))"
  by (simp add: tick_def case_prod_beta)

lemma tick_somebody:
  assumes "is_running s" "last_tick_monotonic s = Some t0"
    "fst (current_player (s\<lparr>last_tick_monotonic := Some now\<rparr>)) = Some i"
    "s1 = snd (current_player (s\<lparr>last_tick_monotonic := Some now\<rparr>))"
    "p1 = ticked now t0 (players s1 ! i)"
  shows "tick now s =
    (if get_remaining_ms p1 = 0
     then emit_current_player (emit_all_players (advance_turn_after_event ''timeout''
            (emit_player_state (p1\<lparr>eliminated := True\<rparr>)
              (notify Info (MsgTimeout (name (p1\<lparr>eliminated := True\<rparr>)))
                (s1\<lparr>players := (players s1)[i := p1\<lparr>eliminated := True\<rparr>]\<rparr>)))))
     else emit_current_player (emit_all_players
            (emit_player_state p1 (s1\<lparr>players := (players s1)[i := p1]\<rparr>))))"
  using assms by (simp add: tick_def case_prod_beta Let_def ticked_def)

lemma tick_answer_list [simp]:
  "answer_list (tick now s) = answer_list s"
proof (cases "is_running s")
  case False
  then show ?thesis by (simp add: tick_not_running)
next
  case True
  show ?thesis
  proof (cases "last_tick_monotonic s")
    case None
    with True show ?thesis by (simp add: tick_first)
  next
    case (Some t0)
    show ?thesis
    proof (cases "fst (current_player (s\<lparr>last_tick_monotonic := Some now\<rparr>))")
      case None
      from tick_nobody [OF True Some None] show ?thesis
        by (simp add: emitters)
    next
      case (Some i)
      from tick_somebody [OF True \<open>last_tick_monotonic s = Some t0\<close> Some refl refl]
      show ?thesis by (simp add: emitters)
    qed
  qed
qed

lemma move_player_answer_list [simp]:
  "answer_list (move_player U nm target s) = answer_list s"
  by (simp add: move_player_def clamp_idx_def Let_def emitters split: option.splits)

lemma forfeit_player_answer_list [simp]:
  "answer_list (forfeit_player U nm s) = answer_list s"
  by (simp add: forfeit_player_def Let_def emitters split: option.splits)

lemma skip_player_answer_list [simp]:
  "answer_list (skip_player U nm s) = answer_list s"
  by (simp add: skip_player_def Let_def case_prod_beta emitters split: option.splits)

lemma step_catalog_ok:
  "catalog_ok s \<Longrightarrow> catalog_ok (step U s a)"
proof (cases a)
  case (LoadCsv rows)
  assume "catalog_ok s"
  with LoadCsv show ?thesis
    by (cases rows) (simp_all add: load_csv_def catalog_ok_def Let_def emitters load_from_csv_subset)
next
  case (HostSubmitAnswer inp)
  assume "catalog_ok s"
  with HostSubmitAnswer show ?thesis by (simp add: host_submit_answer_catalog_ok)
next
  case (UnmarkAnswer k)
  assume "catalog_ok s"
  with UnmarkAnswer show ?thesis
    by (auto simp: unmark_answer_def catalog_ok_def Let_def emitters split: option.splits)
next
  case (ReorderPlayersByName names)
  assume "catalog_ok s"
  with ReorderPlayersByName show ?thesis
    by (simp add: reorder_players_by_name_def)
qed (simp_all add: catalog_ok_def register_player_state_def)

lemma run_catalog_ok: "catalog_ok (run U acts)"
proof -
  have "catalog_ok initial_controller"
    by (simp add: catalog_ok_def initial_controller_def)
  then show ?thesis
    unfolding run_def by (rule foldl_preserves) (rule step_catalog_ok)
qed

text \<open>
  C6. The consumed keys are entries of the catalog after \<open>load_from_csv\<close>; \<open>mark_used\<close>
  keeps it so; so does every operation of the engine (loading, submitting, unmarking
  and all others), and hence it holds in every state the engine reaches from its initial
  state. \<open>find_match\<close>, \<open>remaining_count\<close> and \<open>save_to_csv\<close> only read the catalog.
\<close>

theorem consumed_subset_entries:
  "used (load_from_csv U rows) \<subseteq> set (items (load_from_csv U rows)) \<and>
   (used al \<subseteq> set (items al) \<longrightarrow>
      used (snd (mark_used U al text pc)) \<subseteq> set (items (snd (mark_used U al text pc)))) \<and>
   (catalog_ok s \<longrightarrow> catalog_ok (step U s a)) \<and>
   catalog_ok (run U acts)"
  using load_from_csv_subset mark_used_subset step_catalog_ok run_catalog_ok by blast

theorem consumed_subset_entries_witness:
  "used scenario_catalog \<subseteq> set (items scenario_catalog) \<and>
   used (snd (mark_used ascii_tables scenario_catalog (ascii ''ax'') None)) \<subseteq>
     set (items (snd (mark_used ascii_tables scenario_catalog (ascii ''ax'') None))) \<and>
   catalog_ok (initial_controller\<lparr>answer_list := Some scenario_catalog\<rparr>) \<and>
   catalog_ok (step ascii_tables (initial_controller\<lparr>answer_list := Some scenario_catalog\<rparr>)
     (UnmarkAnswer (ascii ''a-x'')))"
proof -
  have start: "used scenario_catalog \<subseteq> set (items scenario_catalog)"
    by (simp add: scenario_catalog_def)
  then have ok: "catalog_ok (initial_controller\<lparr>answer_list := Some scenario_catalog\<rparr>)"
    by (simp add: catalog_ok_def)
  from start ok
    consumed_subset_entries [of ascii_tables "[]" scenario_catalog "ascii ''ax''" None
      "initial_controller\<lparr>answer_list := Some scenario_catalog\<rparr>" "UnmarkAnswer (ascii ''a-x'')" "[]"]
  show ?thesis by blast
qed

section \<open>Reordering during a game\<close>

lemma clamp_idx_fields [simp]:
  "players (clamp_idx s) = players s"
  "answer_list (clamp_idx s) = answer_list s"
  "is_running (clamp_idx s) = is_running s"
  "answered_order (clamp_idx s) = answered_order s"
  by (simp_all add: clamp_idx_def)























section \<open>The chronology of accepted answers\<close>

lemmas load_eval = load_from_csv_def separator_idx.simps is_separator_def load_unanswered_row_def
  load_answered_row_def displays_of_def matches_of_def empty_answer_list_def Let_def

lemma load_duplicate_rows:
  "load_from_csv ascii_tables duplicate_rows =
     \<lparr>items = [ascii ''a'', ascii ''a''], used = {ascii ''a''},
      match_map = [(ascii ''a'', ascii ''x'')], class_map = [(ascii ''a'', ascii ''x'')],
      element_map = [(ascii ''a'', ascii ''x'')],
      display_map = [(ascii ''a'', ([ascii ''A''], [ascii ''x'']))]\<rparr>"
  by (simp add: duplicate_rows_def load_eval ascii_eval)

text \<open>
  C10 at a file with a repeated row. The first loop of \<open>load_from_csv\<close> appends the key
  of every row, also when it is already in \<open>items\<close> (the second loop checks this), so
  \<open>items\<close> holds the key twice; \<open>load_csv\<close> copies the consumed members of \<open>items\<close>
  into the chronology, which then holds the key twice. Unmarking the key afterwards
  removes one of the two occurrences only: the chronology keeps a key that is no longer
  consumed.
\<close>

theorem load_csv_duplicates_chronology:
  "answered_order (run ascii_tables [LoadCsv (Some duplicate_rows)]) = [ascii ''a'', ascii ''a''] \<and>
   \<not> distinct (answered_order (run ascii_tables [LoadCsv (Some duplicate_rows)])) \<and>
   answered_order (run ascii_tables [LoadCsv (Some duplicate_rows), UnmarkAnswer (ascii ''a'')]) =
     [ascii ''a''] \<and>
   map_option used (answer_list
     (run ascii_tables [LoadCsv (Some duplicate_rows), UnmarkAnswer (ascii ''a'')])) = Some {}"
  by (simp add: run_def load_csv_def load_duplicate_rows emitters unmark_answer_def Let_def)

section \<open>Advancing the turn\<close>

lemma current_player_at:
  assumes "current_idx s = int i" "i < length (players s)" "\<not> eliminated (players s ! i)"
  shows "current_player s = (Some i, s)"
proof -
  from assms(2) have n: "0 < length (players s)" and ne: "players s \<noteq> []" by auto
  then have upt: "[0..<length (players s)] = 0 # [1..<length (players s)]"
    by (simp add: upt_conv_Cons)
  have first: "nat ((current_idx s + int 0) mod int (length (players s))) = i"
    using assms(1,2) by simp
  have "scan_from (players s) (current_idx s) [0..<length (players s)] = Some i"
    unfolding scan_from_def upt using first assms(3) by simp
  moreover have "s\<lparr>current_idx := int i\<rparr> = s" using assms(1) by simp
  ultimately show ?thesis using ne by (simp add: current_player_def)
qed

lemma current_player_idx:
  "fst (current_player s) = Some i \<Longrightarrow> current_idx (snd (current_player s)) = int i"
  by (rule current_player_Some)

lemma current_player_emit:
  "fst (current_player (emit e s)) = fst (current_player s)"
  "current_idx (snd (current_player (emit e s))) = current_idx (snd (current_player s))"
  by (simp_all add: current_player_def Let_def emit_def split: option.splits)

lemma emit_player_state_current_idx:
  "current_idx (emit_player_state p s) =
     (if observer_resolves s then current_idx (snd (current_player s)) else current_idx s)"
  by (simp add: emit_player_state_def Let_def current_player_emit)

lemma emit_player_state_at:
  assumes "current_idx s = int i" "i < length (players s)" "\<not> eliminated (players s ! i)"
  shows "current_idx (emit_player_state p s) = int i"
  using assms by (simp add: emit_player_state_current_idx current_player_at)

lemma current_player_twice:
  assumes "fst (current_player s) = Some i"
  shows "current_player (snd (current_player s)) = (Some i, snd (current_player s))"
  using assms current_player_Some [OF assms]
  by (intro current_player_at) simp_all

lemma end_if_finished_not:
  "\<not> fst (end_if_finished s) \<Longrightarrow> snd (end_if_finished s) = s"
  by (auto simp: end_if_finished_def split: if_splits)

lemma advance_turn_cases:
  "players (advance_turn_after_event reason s) = players s \<or>
   (\<exists>j<length (players s). \<not> eliminated (players s ! j) \<and>
      players (advance_turn_after_event reason s) = (players s)[j := turn_reset (players s ! j)] \<and>
      current_idx (advance_turn_after_event reason s) = int j)"
proof (cases "fst (end_if_finished s)")
  case True
  then show ?thesis
    by (simp add: advance_turn_after_event_def case_prod_beta)
next
  case False
  note open_game = end_if_finished_not [OF False]
  show ?thesis
  proof (cases "players s = []")
    case True
    with False open_game show ?thesis
      by (simp add: advance_turn_after_event_def case_prod_beta emitters)
  next
    case False
    define s2 where "s2 = (case scan_from (players s) (current_idx s) [1..<length (players s) + 1] of
        Some cand \<Rightarrow> s\<lparr>current_idx := int cand\<rparr> | None \<Rightarrow> s)"
    have ps2: "players s2 = players s"
      by (simp add: s2_def split: option.splits)
    define s3 where "s3 = snd (current_player s2)"
    note unfold = advance_turn_after_event_def case_prod_beta Let_def
    show ?thesis
    proof (cases "fst (current_player s2)")
      case None
      have "advance_turn_after_event reason s = emit_current_player (emit_all_players s3)"
        using False \<open>\<not> fst (end_if_finished s)\<close> open_game None [unfolded s2_def]
        by (simp add: unfold s3_def s2_def)
      with ps2 show ?thesis by (simp add: s3_def emitters)
    next
      case (Some j)
      from current_player_Some [OF Some] ps2
      have j: "j < length (players s)" "\<not> eliminated (players s ! j)"
        and idx: "current_idx s3 = int j" by (simp_all add: s3_def)
      define s4 where "s4 = emit_all_players (emit_player_state
          (players (update_player j turn_reset s3) ! j) (update_player j turn_reset s3))"
      have adv: "advance_turn_after_event reason s = emit_current_player s4"
        using False \<open>\<not> fst (end_if_finished s)\<close> open_game Some [unfolded s2_def]
        by (simp add: unfold s4_def s3_def s2_def turn_reset_def [abs_def])
      have ps4: "players s4 = (players s)[j := turn_reset (players s ! j)]"
        by (simp add: s4_def emitters s3_def ps2)
      have idx4: "current_idx s4 = int j"
        using j idx by (simp add: s4_def emitters emit_player_state_at s3_def ps2 turn_reset_def)
      have alive: "\<not> eliminated (players s4 ! j)"
        using j by (simp add: ps4 turn_reset_def)
      have "current_player s4 = (Some j, s4)"
        using idx4 j(1) alive by (intro current_player_at) (simp_all add: ps4)
      then have "current_idx (emit_current_player s4) = int j"
        by (simp add: idx4)
      with adv j ps4 show ?thesis by auto
    qed
  qed
qed

lemma turn_reset_fields [simp]:
  "eliminated (turn_reset p) = eliminated p"
  "remaining_wrong_answers (turn_reset p) = remaining_wrong_answers p"
  "remaining_passes (turn_reset p) = remaining_passes p"
  "base_seconds (turn_reset p) = base_seconds p"
  "wrong_answer_limit (turn_reset p) = wrong_answer_limit p"
  "name (turn_reset p) = name p"
  "get_remaining_ms (turn_reset p) = base_seconds p * 1000"
  by (simp_all add: turn_reset_def get_remaining_ms_def)

lemma advance_turn_static:
  assumes "k < length (players s)"
  shows "eliminated (players (advance_turn_after_event reason s) ! k) = eliminated (players s ! k)"
    and "remaining_wrong_answers (players (advance_turn_after_event reason s) ! k) =
         remaining_wrong_answers (players s ! k)"
  using advance_turn_cases [of reason s] assms
  by (auto simp: nth_list_update split: if_splits)


section \<open>Wrong answers\<close>

lemma record_answer_fields [simp]:
  "eliminated (record_answer U t c p) = eliminated p"
  "remaining_wrong_answers (record_answer U t c p) = remaining_wrong_answers p"
  "wrong_answer_limit (record_answer U t c p) = wrong_answer_limit p"
  "base_seconds (record_answer U t c p) = base_seconds p"
  "remaining_ms (record_answer U t c p) = remaining_ms p"
  by (simp_all add: record_answer_def Let_def)

lemma remember_class_current_idx [simp]:
  "current_idx (remember_class U al t m s) = current_idx s"
  by (simp add: remember_class_def split: option.splits)

lemma host_submit_wrong:
  assumes "fst (current_player s) = Some i" and "answer_list s = Some al"
    and "find_match U al (answer_text_of inp) (last_answered_class s) = None"
  shows "host_submit_answer U inp s =
    emit_current_player (emit_all_players (reject_answer i inp
      (remember_class U al (answer_text_of inp) None
        (update_player i (record_answer U inp False) (snd (current_player s))))))"
  using assms by (simp add: host_submit_answer_def case_prod_beta Let_def)

lemma reject_answer_keep:
  assumes "0 < remaining_wrong_answers (players s ! i)"
  shows "reject_answer i inp s =
    emit (SoundEvent Wrong)
      (emit_player_state ((players s ! i)\<lparr>remaining_wrong_answers := remaining_wrong_answers (players s ! i) - 1\<rparr>)
        (notify Info (MsgWrong (name (players s ! i)) inp (remaining_wrong_answers (players s ! i) - 1))
          (s\<lparr>players := (players s)[i := (players s ! i)\<lparr>remaining_wrong_answers :=
             remaining_wrong_answers (players s ! i) - 1\<rparr>]\<rparr>)))"
  using assms by (simp add: reject_answer_def consume_wrong_answer_def)

lemma reject_answer_out:
  assumes "\<not> 0 < remaining_wrong_answers (players s ! i)"
  shows "reject_answer i inp s =
    advance_turn_after_event ''wrong_limit''
      (emit_player_state ((players s ! i)\<lparr>eliminated := True\<rparr>)
        (notify Info (MsgWrongLimit (name (players s ! i)))
          (s\<lparr>players := (players s)[i := (players s ! i)\<lparr>eliminated := True\<rparr>]\<rparr>)))"
  using assms by (simp add: reject_answer_def consume_wrong_answer_def Let_def)

lemma wrong_answer_with_budget:
  assumes cp: "fst (current_player s) = Some i" and al: "answer_list s = Some al"
    and nomatch: "find_match U al (answer_text_of inp) (last_answered_class s) = None"
    and budget: "0 < remaining_wrong_answers (players s ! i)"
  shows "remaining_wrong_answers (players (host_submit_answer U inp s) ! i) =
           remaining_wrong_answers (players s ! i) - 1"
    and "\<not> eliminated (players (host_submit_answer U inp s) ! i)"
    and "fst (current_player (host_submit_answer U inp s)) = Some i"
    and "answer_list (host_submit_answer U inp s) = Some al"
    and "wrong_answer_limit (players (host_submit_answer U inp s) ! i) = wrong_answer_limit (players s ! i)"
proof -
  note cur = current_player_Some [OF cp]
  define s3 where "s3 = remember_class U al (answer_text_of inp) None
        (update_player i (record_answer U inp False) (snd (current_player s)))"
  have ps3: "players s3 = (players s)[i := record_answer U inp False (players s ! i)]"
    and idx3: "current_idx s3 = int i" and al3: "answer_list s3 = Some al"
    using cur(3) al by (simp_all add: s3_def)
  have p3: "remaining_wrong_answers (players s3 ! i) = remaining_wrong_answers (players s ! i)"
    "eliminated (players s3 ! i) = eliminated (players s ! i)"
    "wrong_answer_limit (players s3 ! i) = wrong_answer_limit (players s ! i)"
    using cur(1) by (simp_all add: ps3)
  define s4 where "s4 = emit_all_players (reject_answer i inp s3)"
  have res: "host_submit_answer U inp s = emit_current_player s4"
    using host_submit_wrong [OF cp al nomatch] by (simp add: s4_def s3_def)
  from budget p3 have b3: "0 < remaining_wrong_answers (players s3 ! i)" by simp
  have ps4: "players s4 = (players s3)[i := (players s3 ! i)\<lparr>remaining_wrong_answers :=
      remaining_wrong_answers (players s3 ! i) - 1\<rparr>]"
    and idx4: "current_idx s4 = int i" and al4: "answer_list s4 = Some al"
    using cur(1,2) p3(2)
    by (simp_all add: s4_def reject_answer_keep [OF b3] emitters idx3 al3 emit_player_state_at ps3)
  have len: "i < length (players s3)" using cur(1) by (simp add: ps3)
  have alive: "\<not> eliminated (players s4 ! i)"
    using len cur(2) p3 by (simp add: ps4)
  have at: "current_player s4 = (Some i, s4)"
    using idx4 len alive by (intro current_player_at) (simp_all add: ps4)
  show "remaining_wrong_answers (players (host_submit_answer U inp s) ! i) =
           remaining_wrong_answers (players s ! i) - 1"
    using len p3 by (simp add: res ps4)
  show "\<not> eliminated (players (host_submit_answer U inp s) ! i)"
    using alive by (simp add: res)
  show "wrong_answer_limit (players (host_submit_answer U inp s) ! i) = wrong_answer_limit (players s ! i)"
    using len p3 by (simp add: res ps4)
  show "answer_list (host_submit_answer U inp s) = Some al"
    by (simp add: res al4)
  have "current_idx (emit_current_player s4) = int i"
    by (simp add: at idx4)
  moreover have "players (emit_current_player s4) = players s4" by simp
  ultimately have "current_player (emit_current_player s4) = (Some i, emit_current_player s4)"
    using len alive by (intro current_player_at) (simp_all add: ps4)
  then show "fst (current_player (host_submit_answer U inp s)) = Some i"
    by (simp add: res)
qed

lemma wrong_answer_without_budget:
  assumes cp: "fst (current_player s) = Some i" and al: "answer_list s = Some al"
    and nomatch: "find_match U al (answer_text_of inp) (last_answered_class s) = None"
    and budget: "\<not> 0 < remaining_wrong_answers (players s ! i)"
  shows "remaining_wrong_answers (players (host_submit_answer U inp s) ! i) =
           remaining_wrong_answers (players s ! i)"
    and "eliminated (players (host_submit_answer U inp s) ! i)"
    and "fst (current_player (host_submit_answer U inp s)) \<noteq> Some i"
proof -
  note cur = current_player_Some [OF cp]
  define s3 where "s3 = remember_class U al (answer_text_of inp) None
        (update_player i (record_answer U inp False) (snd (current_player s)))"
  have ps3: "players s3 = (players s)[i := record_answer U inp False (players s ! i)]"
    using cur(3) by (simp_all add: s3_def)
  have len: "i < length (players s3)" using cur(1) by (simp add: ps3)
  have p3: "remaining_wrong_answers (players s3 ! i) = remaining_wrong_answers (players s ! i)"
    using cur(1) by (simp_all add: ps3)
  define mid where "mid = emit_player_state ((players s3 ! i)\<lparr>eliminated := True\<rparr>)
        (notify Info (MsgWrongLimit (name (players s3 ! i)))
          (s3\<lparr>players := (players s3)[i := (players s3 ! i)\<lparr>eliminated := True\<rparr>]\<rparr>))"
  from budget p3 have b3: "\<not> 0 < remaining_wrong_answers (players s3 ! i)" by simp
  have res: "host_submit_answer U inp s =
      emit_current_player (emit_all_players (advance_turn_after_event ''wrong_limit'' mid))"
    using host_submit_wrong [OF cp al nomatch] reject_answer_out [OF b3]
    by (simp add: s3_def mid_def)
  have pm: "players mid = (players s3)[i := (players s3 ! i)\<lparr>eliminated := True\<rparr>]"
    by (simp add: mid_def emitters)
  have lm: "i < length (players mid)" using len by (simp add: pm)
  have em: "eliminated (players mid ! i)"
    and rm: "remaining_wrong_answers (players mid ! i) = remaining_wrong_answers (players s ! i)"
    using len p3 by (simp_all add: pm)
  show "remaining_wrong_answers (players (host_submit_answer U inp s) ! i) =
           remaining_wrong_answers (players s ! i)"
    using advance_turn_static(2) [OF lm] rm by (simp add: res emitters)
  show out: "eliminated (players (host_submit_answer U inp s) ! i)"
    using advance_turn_static(1) [OF lm] em by (simp add: res emitters)
  show "fst (current_player (host_submit_answer U inp s)) \<noteq> Some i"
    using out current_player_Some(2) by blast
qed


lemma rotate_seat: "k < n \<Longrightarrow> rotate (Suc c) [0..<n] ! k = (Suc c + k) mod n"
  using nth_rotate [of k "[0..<n]" "Suc c"] by (simp del: rotate_Suc)

lemma set_rotate_seats: "set (rotate (Suc c) [0..<n]) = {0..<n}"
  by (simp only: set_rotate set_upt)

lemma seats_after:
  assumes "c < n"
  shows "map (\<lambda>k. nat ((int c + int k) mod int n)) [1..<n + 1] = rotate (Suc c) [0..<n]"
proof (rule nth_equalityI)
  show "length (map (\<lambda>k. nat ((int c + int k) mod int n)) [1..<n + 1]) = length (rotate (Suc c) [0..<n])"
    by (simp del: upt_Suc rotate_Suc)
next
  fix k assume "k < length (map (\<lambda>k. nat ((int c + int k) mod int n)) [1..<n + 1])"
  then have k: "k < n" by (simp del: upt_Suc)
  have "nat ((int c + int (1 + k)) mod int n) = (Suc c + k) mod n"
    by (simp add: nat_mod_distrib nat_add_distrib)
  with k show "map (\<lambda>k. nat ((int c + int k) mod int n)) [1..<n + 1] ! k = rotate (Suc c) [0..<n] ! k"
    by (simp add: rotate_seat del: upt_Suc rotate_Suc)
qed

lemma scan_from_next:
  "c < length ps \<Longrightarrow> scan_from ps (int c) [1..<length ps + 1] = next_in_turn ps c"
  by (simp only: scan_from_def next_in_turn_def seats_after)

lemma find_snoc_fail: "\<not> P x \<Longrightarrow> List.find P (xs @ [x]) = List.find P xs"
  by (induction xs) simp_all

lemma scan_from_self:
  assumes "c < length ps" "eliminated (ps ! c)"
  shows "scan_from ps (int c) [0..<length ps] = next_in_turn ps c"
proof -
  let ?n = "length ps"
  let ?f = "\<lambda>k. nat ((int c + int k) mod int ?n)"
  from assms(1) have pos: "0 < ?n" by (cases ps) simp_all
  have split1: "[0..<?n] = 0 # [1..<?n]"
    using upt_conv_Cons [OF pos] by simp
  from assms(1) have split2: "[1..<?n + 1] = [1..<?n] @ [?n]" by simp
  have f0: "?f 0 = c" and fn: "?f ?n = c" using assms(1) by simp_all
  have "scan_from ps (int c) [0..<?n] = List.find (\<lambda>j. \<not> eliminated (ps ! j)) (map ?f [1..<?n])"
    unfolding scan_from_def split1 using assms(2) f0 by simp
  also have "\<dots> = scan_from ps (int c) [1..<?n + 1]"
    unfolding scan_from_def split2 using assms(2) fn
    by (simp add: find_snoc_fail)
  finally show ?thesis using assms(1) by (simp only: scan_from_next)
qed

lemma next_in_turn_Some:
  assumes "next_in_turn ps c = Some j"
  shows "j < length ps" and "\<not> eliminated (ps ! j)"
proof -
  from assms obtain k where "k < length ps" "j = rotate (Suc c) [0..<length ps] ! k"
    and alive: "\<not> eliminated (ps ! j)"
    unfolding next_in_turn_def find_Some_iff by (auto simp del: rotate_Suc)
  then have "j = (Suc c + k) mod length ps" and "0 < length ps"
    by (simp_all only: rotate_seat)
  then show "j < length ps" by simp
  from alive show "\<not> eliminated (ps ! j)" .
qed

lemma next_in_turn_exists:
  assumes "\<not> list_all eliminated ps"
  shows "\<exists>j. next_in_turn ps c = Some j"
proof (cases "next_in_turn ps c")
  case None
  then have "\<forall>j \<in> set (rotate (Suc c) [0..<length ps]). eliminated (ps ! j)"
    unfolding next_in_turn_def find_None_iff by simp
  then have "\<forall>j<length ps. eliminated (ps ! j)"
    by (simp only: set_rotate_seats atLeastLessThan_iff) simp
  with assms show ?thesis by (simp add: list_all_length)
qed simp

lemma next_in_turn_iff:
  "next_in_turn ps c = Some j \<longleftrightarrow>
     (\<exists>k<length ps. j = (Suc c + k) mod length ps \<and> \<not> eliminated (ps ! j) \<and>
        (\<forall>m<k. eliminated (ps ! ((Suc c + m) mod length ps))))"
proof -
  have len: "length (rotate (Suc c) [0..<length ps]) = length ps"
    by (simp del: rotate_Suc)
  show ?thesis
    unfolding next_in_turn_def find_Some_iff len
    by (auto simp add: rotate_seat simp del: rotate_Suc)
qed

lemma end_if_finished_iff:
  "fst (end_if_finished s) \<longleftrightarrow>
     players s \<noteq> [] \<and> list_all eliminated (players s) \<or>
     (case answer_list s of None \<Rightarrow> False | Some al \<Rightarrow> remaining_count al = 0)"
  by (simp add: end_if_finished_def)

lemma advance_turn_finished:
  "fst (end_if_finished s) \<Longrightarrow> advance_turn_after_event reason s = stop_game s"
  by (auto simp add: advance_turn_after_event_def case_prod_beta end_if_finished_def
      split: if_splits)

lemma advance_turn_next:
  assumes open_game: "\<not> fst (end_if_finished s)" and idx: "current_idx s = int c"
    and c: "c < length (players s)"
  shows "\<exists>j. next_in_turn (players s) c = Some j \<and>
      players (advance_turn_after_event reason s) = (players s)[j := turn_reset (players s ! j)] \<and>
      current_idx (advance_turn_after_event reason s) = int j \<and>
      is_running (advance_turn_after_event reason s) = is_running s"
proof -
  from c have ne: "players s \<noteq> []" by auto
  with open_game have "\<not> list_all eliminated (players s)"
    by (simp add: end_if_finished_iff)
  from next_in_turn_exists [OF this] obtain j where nxt: "next_in_turn (players s) c = Some j"
    by blast
  note j = next_in_turn_Some [OF nxt]
  have scan: "scan_from (players s) (current_idx s) [1..<length (players s) + 1] = Some j"
    using scan_from_next [OF c] nxt idx by simp
  define s2 where "s2 = s\<lparr>current_idx := int j\<rparr>"
  have at2: "current_player s2 = (Some j, s2)"
    using j by (intro current_player_at) (simp_all add: s2_def)
  define s3 where "s3 = update_player j turn_reset s2"
  define s4 where "s4 = emit_all_players (emit_player_state (players s3 ! j) s3)"
  have adv: "advance_turn_after_event reason s = emit_current_player s4"
    using ne open_game end_if_finished_not [OF open_game] scan at2 [unfolded s2_def]
    by (simp add: advance_turn_after_event_def case_prod_beta Let_def s4_def s3_def s2_def
        turn_reset_def [abs_def])
  have ps4: "players s4 = (players s)[j := turn_reset (players s ! j)]"
    by (simp add: s4_def s3_def s2_def emitters)
  have idx4: "current_idx s4 = int j"
    using j by (simp add: s4_def s3_def s2_def emitters emit_player_state_at)
  have run4: "is_running s4 = is_running s"
    by (simp add: s4_def s3_def s2_def emitters)
  have "current_player s4 = (Some j, s4)"
    using idx4 j by (intro current_player_at) (simp_all add: ps4)
  then have "current_idx (emit_current_player s4) = int j"
    by (simp add: idx4)
  with nxt adv ps4 run4 show ?thesis by simp
qed

lemma stop_game_events:
  "\<exists>post. events (stop_game s) = events s @ Notification Info MsgGameStop # GameEnded ''stopped'' # post"
  by (simp add: stop_game_def emitters)

lemma remember_class_observer [simp]:
  "observer_resolves (remember_class U al t m s) = observer_resolves s"
  by (simp add: remember_class_def split: option.splits)

lemma update_player_observer [simp]:
  "observer_resolves (update_player i f s) = observer_resolves s"
  by (simp add: update_player_def)

lemma current_player_scan:
  assumes "players s \<noteq> []" "scan_from (players s) (current_idx s) [0..<length (players s)] = Some c"
  shows "current_player s = (Some c, s\<lparr>current_idx := int c\<rparr>)"
  using assms by (simp add: current_player_def)

lemma wrong_answer_elimination:
  assumes cp: "fst (current_player s) = Some i" and al: "answer_list s = Some al"
    and nomatch: "find_match U al (answer_text_of inp) (last_answered_class s) = None"
    and budget: "\<not> 0 < remaining_wrong_answers (players s ! i)"
    and out: "out = (players s)[i := (record_answer U inp False (players s ! i))\<lparr>eliminated := True\<rparr>]"
  shows "list_all eliminated out \<or> remaining_count al = 0 \<Longrightarrow>
           \<not> is_running (host_submit_answer U inp s) \<and>
           players (host_submit_answer U inp s) = out \<and>
           (\<exists>pre post. events (host_submit_answer U inp s) =
              events s @ pre @ GameEnded ''stopped'' # post)"
    and "\<not> list_all eliminated out \<Longrightarrow> remaining_count al \<noteq> 0 \<Longrightarrow>
           is_running (host_submit_answer U inp s) = is_running s \<and>
           (\<exists>c j. (if observer_resolves s then next_in_turn out i = Some c else c = i) \<and>
              next_in_turn out c = Some j \<and>
              fst (current_player (host_submit_answer U inp s)) = Some j \<and>
              current_idx (host_submit_answer U inp s) = int j \<and>
              players (host_submit_answer U inp s) = out[j := turn_reset (out ! j)])"
proof -
  note cur = current_player_Some [OF cp]
  define s3 where "s3 = remember_class U al (answer_text_of inp) None
        (update_player i (record_answer U inp False) (snd (current_player s)))"
  have ps3: "players s3 = (players s)[i := record_answer U inp False (players s ! i)]"
    and idx3: "current_idx s3 = int i" and al3: "answer_list s3 = Some al"
    and obs3: "observer_resolves s3 = observer_resolves s"
    and run3: "is_running s3 = is_running s" and ev3: "events s3 = events s"
    using cur(3) al by (simp_all add: s3_def)
  define p2 where "p2 = (players s3 ! i)\<lparr>eliminated := True\<rparr>"
  have p2: "p2 = (record_answer U inp False (players s ! i))\<lparr>eliminated := True\<rparr>"
    using cur(1) by (simp add: p2_def ps3)
  define mid0 where "mid0 = notify Info (MsgWrongLimit (name (players s3 ! i)))
      (s3\<lparr>players := (players s3)[i := p2]\<rparr>)"
  define mid where "mid = emit_player_state p2 mid0"
  have b3: "\<not> 0 < remaining_wrong_answers (players s3 ! i)"
    using budget cur(1) by (simp add: ps3)
  have res: "host_submit_answer U inp s =
      emit_current_player (emit_all_players (advance_turn_after_event ''wrong_limit'' mid))"
    using host_submit_wrong [OF cp al nomatch] reject_answer_out [OF b3, of inp]
    by (simp add: s3_def mid_def mid0_def p2_def)
  have pm0: "players mid0 = out" and idx0: "current_idx mid0 = int i"
    and obs0: "observer_resolves mid0 = observer_resolves s"
    by (simp_all add: mid0_def emitters ps3 out p2 idx3 obs3)
  have pm: "players mid = out" and alm: "answer_list mid = Some al"
    and runm: "is_running mid = is_running s"
    and evm: "\<exists>pre. events mid = events s @ pre"
    by (simp_all add: mid_def mid0_def emitters ps3 out p2 al3 run3 ev3)
  have len: "i < length out" and gone: "eliminated (out ! i)"
    using cur(1) by (simp_all add: out)
  then have ne: "out \<noteq> []" by auto
  have fin: "fst (end_if_finished mid) \<longleftrightarrow> list_all eliminated out \<or> remaining_count al = 0"
    using ne by (simp add: end_if_finished_iff pm alm)
  {
    assume "list_all eliminated out \<or> remaining_count al = 0"
    with fin have "advance_turn_after_event ''wrong_limit'' mid = stop_game mid"
      by (simp add: advance_turn_finished)
    with res have res': "host_submit_answer U inp s =
        emit_current_player (emit_all_players (stop_game mid))" by simp
    from evm obtain pre where pre: "events mid = events s @ pre" by blast
    from stop_game_events [of mid] obtain post where
      post: "events (stop_game mid) = events mid @ Notification Info MsgGameStop # GameEnded ''stopped'' # post"
      by blast
    have "\<exists>post'. events (host_submit_answer U inp s) =
        events s @ (pre @ [Notification Info MsgGameStop]) @ GameEnded ''stopped'' # post'"
      by (simp add: res' emitters post pre)
    then have "\<exists>pre post. events (host_submit_answer U inp s) =
        events s @ pre @ GameEnded ''stopped'' # post" by blast
    then show "\<not> is_running (host_submit_answer U inp s) \<and>
           players (host_submit_answer U inp s) = out \<and>
           (\<exists>pre post. events (host_submit_answer U inp s) =
              events s @ pre @ GameEnded ''stopped'' # post)"
      by (simp add: res' emitters pm)
  }
  {
    assume alive: "\<not> list_all eliminated out" and left: "remaining_count al \<noteq> 0"
    with fin have open_game: "\<not> fst (end_if_finished mid)" by simp
    have "\<exists>c. (if observer_resolves s then next_in_turn out i = Some c else c = i) \<and>
        current_idx mid = int c \<and> c < length out"
    proof (cases "observer_resolves s")
      case True
      from next_in_turn_exists [OF alive] obtain c where c: "next_in_turn out i = Some c"
        by blast
      have "scan_from (players mid0) (current_idx mid0) [0..<length (players mid0)] = Some c"
        using scan_from_self [OF len gone] c by (simp add: pm0 idx0)
      from current_player_scan [OF _ this] ne
      have "current_player mid0 = (Some c, mid0\<lparr>current_idx := int c\<rparr>)"
        by (simp add: pm0)
      then have "current_idx mid = int c"
        using True by (simp add: mid_def emit_player_state_current_idx obs0)
      with True c next_in_turn_Some(1) [OF c] show ?thesis by auto
    next
      case False
      then have "current_idx mid = int i"
        by (simp add: mid_def emit_player_state_current_idx obs0 idx0)
      with False len show ?thesis by auto
    qed
    then obtain c where c: "if observer_resolves s then next_in_turn out i = Some c else c = i"
      and idxm: "current_idx mid = int c" and lc: "c < length out" by blast
    from advance_turn_next [OF open_game idxm, of "''wrong_limit''"] lc
    obtain j where nxt: "next_in_turn out c = Some j"
      and pa: "players (advance_turn_after_event ''wrong_limit'' mid) = out[j := turn_reset (out ! j)]"
      and ia: "current_idx (advance_turn_after_event ''wrong_limit'' mid) = int j"
      and ra: "is_running (advance_turn_after_event ''wrong_limit'' mid) = is_running s"
      by (auto simp: pm runm)
    note j = next_in_turn_Some [OF nxt]
    define s5 where "s5 = emit_all_players (advance_turn_after_event ''wrong_limit'' mid)"
    have p5: "players s5 = out[j := turn_reset (out ! j)]" and i5: "current_idx s5 = int j"
      and r5: "is_running s5 = is_running s"
      by (simp_all add: s5_def emitters pa ia ra)
    have at5: "current_player s5 = (Some j, s5)"
      using i5 j by (intro current_player_at) (simp_all add: p5)
    have res5: "host_submit_answer U inp s = emit_current_player s5"
      by (simp add: res s5_def)
    have i6: "current_idx (host_submit_answer U inp s) = int j"
      by (simp add: res5 at5 i5)
    have p6: "players (host_submit_answer U inp s) = out[j := turn_reset (out ! j)]"
      by (simp add: res5 p5)
    have "current_player (host_submit_answer U inp s) = (Some j, host_submit_answer U inp s)"
      using i6 j by (intro current_player_at) (simp_all add: p6)
    with c nxt i6 p6 r5
    show "is_running (host_submit_answer U inp s) = is_running s \<and>
           (\<exists>c j. (if observer_resolves s then next_in_turn out i = Some c else c = i) \<and>
              next_in_turn out c = Some j \<and>
              fst (current_player (host_submit_answer U inp s)) = Some j \<and>
              current_idx (host_submit_answer U inp s) = int j \<and>
              players (host_submit_answer U inp s) = out[j := turn_reset (out ! j)])"
      by (auto simp: res5)
  }
qed

lemma wrong_answer_kept:
  assumes cp: "fst (current_player s) = Some i" and al: "answer_list s = Some al"
    and nomatch: "find_match U al (answer_text_of inp) (last_answered_class s) = None"
    and budget: "0 < remaining_wrong_answers (players s ! i)"
  shows "players (host_submit_answer U inp s) =
           (players s)[i := (record_answer U inp False (players s ! i))
              \<lparr>remaining_wrong_answers := remaining_wrong_answers (players s ! i) - 1\<rparr>]"
    and "is_running (host_submit_answer U inp s) = is_running s"
proof -
  note cur = current_player_Some [OF cp]
  define s3 where "s3 = remember_class U al (answer_text_of inp) None
        (update_player i (record_answer U inp False) (snd (current_player s)))"
  have ps3: "players s3 = (players s)[i := record_answer U inp False (players s ! i)]"
    and run3: "is_running s3 = is_running s"
    by (simp_all add: s3_def)
  have b3: "0 < remaining_wrong_answers (players s3 ! i)"
    using budget cur(1) by (simp add: ps3)
  have res: "host_submit_answer U inp s = emit_current_player (emit_all_players (reject_answer i inp s3))"
    using host_submit_wrong [OF cp al nomatch] by (simp add: s3_def)
  show "players (host_submit_answer U inp s) =
           (players s)[i := (record_answer U inp False (players s ! i))
              \<lparr>remaining_wrong_answers := remaining_wrong_answers (players s ! i) - 1\<rparr>]"
    using cur(1) by (simp add: res reject_answer_keep [OF b3] emitters ps3)
  show "is_running (host_submit_answer U inp s) = is_running s"
    by (simp add: res reject_answer_keep [OF b3] emitters run3)
qed

text \<open>
  C3. Let the active player, in seat \<open>i\<close>, submit a text that matches no entry.

  With a budget above zero, \<open>consume_wrong_answer\<close> returns true and takes one off.
  After \<open>host_submit_answer\<close> the roster is the one before with the answer recorded
  and the budget of that player one less: no countdown is reset, the player is not
  eliminated and is still the active player, and \<open>is_running\<close> is as before.

  With no budget left, \<open>consume_wrong_answer\<close> returns false and leaves the player
  as it is; after \<open>host_submit_answer\<close> the budget is unchanged, the player is
  eliminated and no longer the active player. Then, with \<open>strike_out\<close> the roster in
  which the answer is recorded and the player eliminated:
  \<^item> if everybody is eliminated now, or no entry of the catalog is left, the game ends:
    \<open>is_running\<close> is false, the roster is \<open>strike_out\<close> and the event
    \<open>GameEnded ''stopped''\<close> is among the events emitted by the call;
  \<^item> otherwise the game goes on and the turn advances: a player \<open>j\<close> other than
    \<open>i\<close> and still in the game is the active player, with the countdown set to
    \<open>base_seconds * 1000\<close>, and nothing else in \<open>strike_out\<close> is changed. Seat
    \<open>j\<close> is the next seat in turn after seat \<open>c\<close>, where \<open>c\<close> is \<open>i\<close> when the
    observer of player states is inert; when that observer calls \<open>current_player()\<close>,
    as the application's does, its call on the elimination has moved \<open>current_idx\<close>
    already, and \<open>c\<close> is the next seat in turn after \<open>i\<close>.

  The body of \<open>_advance_turn_after_event\<close> does not read the reason \<open>"wrong_limit"\<close>,
  so the statement is about what the advance does.

  With a limit of one, and the budget at that limit, the first wrong answer leaves the
  player in the game with budget zero and the second one eliminates the player.
\<close>

theorem wrong_answer_adjudication:
  assumes cp: "fst (current_player s) = Some i" and al: "answer_list s = Some al"
    and nomatch: "find_match U al (answer_text_of inp) (last_answered_class s) = None"
  shows
    "(0 < remaining_wrong_answers (players s ! i) \<longrightarrow>
        consume_wrong_answer (players s ! i) =
          (True, (players s ! i)\<lparr>remaining_wrong_answers := remaining_wrong_answers (players s ! i) - 1\<rparr>) \<and>
        remaining_wrong_answers (players (host_submit_answer U inp s) ! i) =
          remaining_wrong_answers (players s ! i) - 1 \<and>
        \<not> eliminated (players (host_submit_answer U inp s) ! i) \<and>
        fst (current_player (host_submit_answer U inp s)) = Some i \<and>
        players (host_submit_answer U inp s) =
          (players s)[i := (record_answer U inp False (players s ! i))
             \<lparr>remaining_wrong_answers := remaining_wrong_answers (players s ! i) - 1\<rparr>] \<and>
        is_running (host_submit_answer U inp s) = is_running s) \<and>
     (remaining_wrong_answers (players s ! i) \<le> 0 \<longrightarrow>
        consume_wrong_answer (players s ! i) = (False, players s ! i) \<and>
        remaining_wrong_answers (players (host_submit_answer U inp s) ! i) =
          remaining_wrong_answers (players s ! i) \<and>
        eliminated (players (host_submit_answer U inp s) ! i) \<and>
        fst (current_player (host_submit_answer U inp s)) \<noteq> Some i \<and>
        (list_all eliminated (strike_out U inp i (players s)) \<or> remaining_count al = 0 \<longrightarrow>
           \<not> is_running (host_submit_answer U inp s) \<and>
           players (host_submit_answer U inp s) = strike_out U inp i (players s) \<and>
           (\<exists>pre post. events (host_submit_answer U inp s) =
              events s @ pre @ GameEnded ''stopped'' # post)) \<and>
        (\<not> list_all eliminated (strike_out U inp i (players s)) \<and> remaining_count al \<noteq> 0 \<longrightarrow>
           is_running (host_submit_answer U inp s) = is_running s \<and>
           (\<exists>c j. (if observer_resolves s then next_in_turn (strike_out U inp i (players s)) i = Some c
                    else c = i) \<and>
              next_in_turn (strike_out U inp i (players s)) c = Some j \<and> j \<noteq> i \<and>
              fst (current_player (host_submit_answer U inp s)) = Some j \<and>
              players (host_submit_answer U inp s) =
                (strike_out U inp i (players s))[j := turn_reset (strike_out U inp i (players s) ! j)] \<and>
              get_remaining_ms (players (host_submit_answer U inp s) ! j) =
                base_seconds (players s ! j) * 1000))) \<and>
     (wrong_answer_limit (players s ! i) = 1 \<and> remaining_wrong_answers (players s ! i) = 1 \<and>
      find_match U al (answer_text_of inp2) (last_answered_class (host_submit_answer U inp s)) = None \<longrightarrow>
        \<not> eliminated (players (host_submit_answer U inp s) ! i) \<and>
        remaining_wrong_answers (players (host_submit_answer U inp s) ! i) = 0 \<and>
        eliminated (players (host_submit_answer U inp2 (host_submit_answer U inp s)) ! i))"
proof (intro conjI impI)
  assume b: "0 < remaining_wrong_answers (players s ! i)"
  then show "consume_wrong_answer (players s ! i) =
      (True, (players s ! i)\<lparr>remaining_wrong_answers := remaining_wrong_answers (players s ! i) - 1\<rparr>)"
    by (simp add: consume_wrong_answer_def)
  from wrong_answer_with_budget [OF cp al nomatch b]
  show "remaining_wrong_answers (players (host_submit_answer U inp s) ! i) =
          remaining_wrong_answers (players s ! i) - 1"
    and "\<not> eliminated (players (host_submit_answer U inp s) ! i)"
    and "fst (current_player (host_submit_answer U inp s)) = Some i"
    by simp_all
  from wrong_answer_kept [OF cp al nomatch b]
  show "players (host_submit_answer U inp s) =
          (players s)[i := (record_answer U inp False (players s ! i))
             \<lparr>remaining_wrong_answers := remaining_wrong_answers (players s ! i) - 1\<rparr>]"
    and "is_running (host_submit_answer U inp s) = is_running s"
    by simp_all
next
  assume "remaining_wrong_answers (players s ! i) \<le> 0"
  then have b: "\<not> 0 < remaining_wrong_answers (players s ! i)" by simp
  then show "consume_wrong_answer (players s ! i) = (False, players s ! i)"
    by (simp add: consume_wrong_answer_def)
  from wrong_answer_without_budget [OF cp al nomatch b]
  show "remaining_wrong_answers (players (host_submit_answer U inp s) ! i) =
          remaining_wrong_answers (players s ! i)"
    and "eliminated (players (host_submit_answer U inp s) ! i)"
    and "fst (current_player (host_submit_answer U inp s)) \<noteq> Some i"
    by simp_all
  note elim = wrong_answer_elimination [OF cp al nomatch b strike_out_def [of U inp i "players s"]]
  {
    assume "list_all eliminated (strike_out U inp i (players s)) \<or> remaining_count al = 0"
    from elim(1) [OF this]
    show "\<not> is_running (host_submit_answer U inp s)"
      and "players (host_submit_answer U inp s) = strike_out U inp i (players s)"
      and "\<exists>pre post. events (host_submit_answer U inp s) =
              events s @ pre @ GameEnded ''stopped'' # post"
      by simp_all
  }
  {
    assume "\<not> list_all eliminated (strike_out U inp i (players s)) \<and> remaining_count al \<noteq> 0"
    then have cont: "\<not> list_all eliminated (strike_out U inp i (players s))" "remaining_count al \<noteq> 0"
      by simp_all
    from elim(2) [OF cont]
    show "is_running (host_submit_answer U inp s) = is_running s" by simp
    from elim(2) [OF cont] obtain c j where
      c: "if observer_resolves s then next_in_turn (strike_out U inp i (players s)) i = Some c else c = i"
      and nxt: "next_in_turn (strike_out U inp i (players s)) c = Some j"
      and act: "fst (current_player (host_submit_answer U inp s)) = Some j"
      and ps: "players (host_submit_answer U inp s) =
                (strike_out U inp i (players s))[j := turn_reset (strike_out U inp i (players s) ! j)]"
      by blast
    note j = next_in_turn_Some [OF nxt]
    from current_player_Some(1) [OF cp] have "eliminated (strike_out U inp i (players s) ! i)"
      by (simp add: strike_out_def)
    with j(2) have ne: "j \<noteq> i" by auto
    from j(1) ne have "get_remaining_ms (players (host_submit_answer U inp s) ! j) =
                base_seconds (players s ! j) * 1000"
      by (simp add: ps strike_out_def turn_reset_def get_remaining_ms_def)
    with c nxt act ps ne
    show "\<exists>c j. (if observer_resolves s then next_in_turn (strike_out U inp i (players s)) i = Some c
                    else c = i) \<and>
              next_in_turn (strike_out U inp i (players s)) c = Some j \<and> j \<noteq> i \<and>
              fst (current_player (host_submit_answer U inp s)) = Some j \<and>
              players (host_submit_answer U inp s) =
                (strike_out U inp i (players s))[j := turn_reset (strike_out U inp i (players s) ! j)] \<and>
              get_remaining_ms (players (host_submit_answer U inp s) ! j) =
                base_seconds (players s ! j) * 1000"
      by blast
  }
next
  assume h: "wrong_answer_limit (players s ! i) = 1 \<and> remaining_wrong_answers (players s ! i) = 1 \<and>
      find_match U al (answer_text_of inp2) (last_answered_class (host_submit_answer U inp s)) = None"
  then have b: "0 < remaining_wrong_answers (players s ! i)" by simp
  note first = wrong_answer_with_budget [OF cp al nomatch b]
  from first(2) show "\<not> eliminated (players (host_submit_answer U inp s) ! i)" .
  from first(1) h show zero: "remaining_wrong_answers (players (host_submit_answer U inp s) ! i) = 0"
    by simp
  from h have nomatch2: "find_match U al (answer_text_of inp2)
      (last_answered_class (host_submit_answer U inp s)) = None" by simp
  from zero have b2: "\<not> 0 < remaining_wrong_answers (players (host_submit_answer U inp s) ! i)"
    by simp
  from wrong_answer_without_budget(2) [OF first(3) first(4) nomatch2 b2]
  show "eliminated (players (host_submit_answer U inp2 (host_submit_answer U inp s)) ! i)" .
qed

lemma scenario_no_match:
  "find_match ascii_tables scenario_catalog (answer_text_of (ascii ''zz'')) pc = None"
  by (simp add: find_match_def answer_text_of_def scenario_catalog_def ascii_eval)

lemma scenario_game_active: "fst (current_player scenario_game) = Some 0"
  by (simp add: current_player_def scan_from_def scenario_game_def initial_controller_def
      make_player_def reset_runtime_def upt_conv_Cons)

lemma scenario_trio_active:
  "fst (current_player scenario_trio) = Some 0"
  "fst (current_player (register_player_state True scenario_trio)) = Some 0"
  by (simp_all add: current_player_def scan_from_def scenario_trio_def initial_controller_def
      make_player_def reset_runtime_def upt_conv_Cons register_player_state_def)

lemma scenario_left: "remaining_count scenario_catalog \<noteq> 0"
  by (simp add: remaining_count_def scenario_catalog_def)

lemmas sample_players = scenario_game_def scenario_trio_def scenario_endgame_def
  initial_controller_def make_player_def reset_runtime_def register_player_state_def

lemma scenario_endgame_active: "fst (current_player scenario_endgame) = Some 0"
  by (simp add: current_player_def scan_from_def sample_players upt_conv_Cons)

lemma scenario_trio_struck:
  "\<not> list_all eliminated (strike_out U inp 0 (players scenario_trio))"
  "next_in_turn (strike_out U inp 0 (players scenario_trio)) 0 = Some 1"
  "next_in_turn (strike_out U inp 0 (players scenario_trio)) (Suc 0) = Some 2"
  "map get_remaining_ms ((strike_out U inp 0 (players scenario_trio))
     [Suc 0 := turn_reset (strike_out U inp 0 (players scenario_trio) ! Suc 0)]) = [5000, 30000, 7000]"
  "map get_remaining_ms ((strike_out U inp 0 (players scenario_trio))
     [2 := turn_reset (strike_out U inp 0 (players scenario_trio) ! 2)]) = [5000, 12000, 30000]"
  by (simp_all add: strike_out_def next_in_turn_def sample_players turn_reset_def
      get_remaining_ms_def)

lemma scenario_endgame_struck:
  "list_all eliminated (strike_out U inp 0 (players scenario_endgame))"
  by (simp add: strike_out_def sample_players)

theorem wrong_answer_adjudication_witness:
  "fst (current_player scenario_game) = Some 0 \<and>
   answer_list scenario_game = Some scenario_catalog \<and>
   wrong_answer_limit (players scenario_game ! 0) = 1 \<and>
   remaining_wrong_answers (players scenario_game ! 0) = 1 \<and>
   \<not> eliminated (players (wrong_guess scenario_game) ! 0) \<and>
   remaining_wrong_answers (players (wrong_guess scenario_game) ! 0) = 0 \<and>
   fst (current_player (wrong_guess scenario_game)) = Some 0 \<and>
   eliminated (players (wrong_guess (wrong_guess scenario_game)) ! 0) \<and>
   fst (current_player scenario_trio) = Some 0 \<and>
   remaining_wrong_answers (players scenario_trio ! 0) = 0 \<and>
   map get_remaining_ms (players scenario_trio) = [5000, 12000, 7000] \<and>
   eliminated (players (wrong_guess scenario_trio) ! 0) \<and>
   is_running (wrong_guess scenario_trio) \<and>
   fst (current_player (wrong_guess scenario_trio)) = Some 1 \<and>
   map get_remaining_ms (players (wrong_guess scenario_trio)) = [5000, 30000, 7000] \<and>
   fst (current_player (wrong_guess (register_player_state True scenario_trio))) = Some 2 \<and>
   map get_remaining_ms (players (wrong_guess (register_player_state True scenario_trio))) =
     [5000, 12000, 30000] \<and>
   fst (current_player scenario_endgame) = Some 0 \<and>
   \<not> is_running (wrong_guess scenario_endgame) \<and>
   list_all eliminated (players (wrong_guess scenario_endgame)) \<and>
   GameEnded ''stopped'' \<in> set (events (wrong_guess scenario_endgame))"
proof -
  let ?zz = "ascii ''zz''"
  let ?watched = "register_player_state True scenario_trio"
  have al: "answer_list scenario_game = Some scenario_catalog"
    "answer_list scenario_trio = Some scenario_catalog"
    "answer_list ?watched = Some scenario_catalog"
    "answer_list scenario_endgame = Some scenario_catalog"
    by (simp_all add: sample_players)
  have lim: "wrong_answer_limit (players scenario_game ! 0) = 1"
    "remaining_wrong_answers (players scenario_game ! 0) = 1"
    by (simp_all add: sample_players)
  have spent: "remaining_wrong_answers (players scenario_trio ! 0) \<le> 0"
    "remaining_wrong_answers (players ?watched ! 0) \<le> 0"
    "remaining_wrong_answers (players scenario_endgame ! 0) \<le> 0"
    by (simp_all add: sample_players)
  have before: "remaining_wrong_answers (players scenario_trio ! 0) = 0"
    "map get_remaining_ms (players scenario_trio) = [5000, 12000, 7000]"
    by (simp_all add: sample_players get_remaining_ms_def)
  have obs: "\<not> observer_resolves scenario_trio" "observer_resolves ?watched"
    "players ?watched = players scenario_trio" "is_running scenario_trio"
    by (simp_all add: sample_players)

  from lim have pos: "0 < remaining_wrong_answers (players scenario_game ! 0)" by simp
  note first = wrong_answer_adjudication [OF scenario_game_active al(1) scenario_no_match,
      of ?zz, folded wrong_guess_def]
  from first [THEN conjunct1, rule_format, OF pos]
  have k: "remaining_wrong_answers (players (wrong_guess scenario_game) ! 0) =
        remaining_wrong_answers (players scenario_game ! 0) - 1"
      "\<not> eliminated (players (wrong_guess scenario_game) ! 0)"
      "fst (current_player (wrong_guess scenario_game)) = Some 0"
    by blast+
  from k(1) lim have zero: "remaining_wrong_answers (players (wrong_guess scenario_game) ! 0) = 0"
    by simp
  from first [THEN conjunct2, THEN conjunct2, rule_format] lim scenario_no_match
  have twice: "eliminated (players (wrong_guess (wrong_guess scenario_game)) ! 0)"
    by blast

  note inert = wrong_answer_adjudication [OF scenario_trio_active(1) al(2) scenario_no_match,
      of ?zz, folded wrong_guess_def, THEN conjunct2, THEN conjunct1, rule_format, OF spent(1)]
  from inert have out1: "eliminated (players (wrong_guess scenario_trio) ! 0)" by blast
  from inert scenario_trio_struck(1) scenario_left
  have run1: "is_running (wrong_guess scenario_trio) = is_running scenario_trio" by blast
  from inert scenario_trio_struck(1) scenario_left obs(1)
  obtain j where "next_in_turn (strike_out ascii_tables ?zz 0 (players scenario_trio)) 0 = Some j"
    and "fst (current_player (wrong_guess scenario_trio)) = Some j"
    and "players (wrong_guess scenario_trio) =
      (strike_out ascii_tables ?zz 0 (players scenario_trio))
        [j := turn_reset (strike_out ascii_tables ?zz 0 (players scenario_trio) ! j)]"
    by auto
  then have turn1: "fst (current_player (wrong_guess scenario_trio)) = Some 1"
    and ms1: "map get_remaining_ms (players (wrong_guess scenario_trio)) = [5000, 30000, 7000]"
    by (auto simp: scenario_trio_struck)

  note watched = wrong_answer_adjudication [OF scenario_trio_active(2) al(3) scenario_no_match,
      of ?zz, folded wrong_guess_def, THEN conjunct2, THEN conjunct1, rule_format, OF spent(2)]
  from watched scenario_trio_struck(1) scenario_left obs(2,3)
  obtain c j where "next_in_turn (strike_out ascii_tables ?zz 0 (players scenario_trio)) 0 = Some c"
    and "next_in_turn (strike_out ascii_tables ?zz 0 (players scenario_trio)) c = Some j"
    and "fst (current_player (wrong_guess ?watched)) = Some j"
    and "players (wrong_guess ?watched) =
      (strike_out ascii_tables ?zz 0 (players scenario_trio))
        [j := turn_reset (strike_out ascii_tables ?zz 0 (players scenario_trio) ! j)]"
    by auto
  then have turn2: "fst (current_player (wrong_guess ?watched)) = Some 2"
    and ms2: "map get_remaining_ms (players (wrong_guess ?watched)) = [5000, 12000, 30000]"
    by (auto simp: scenario_trio_struck)

  note last = wrong_answer_adjudication [OF scenario_endgame_active al(4) scenario_no_match,
      of ?zz, folded wrong_guess_def, THEN conjunct2, THEN conjunct1, rule_format, OF spent(3)]
  from last scenario_endgame_struck
  have over: "\<not> is_running (wrong_guess scenario_endgame)"
    "players (wrong_guess scenario_endgame) = strike_out ascii_tables ?zz 0 (players scenario_endgame)"
    "\<exists>pre post. events (wrong_guess scenario_endgame) =
       events scenario_endgame @ pre @ GameEnded ''stopped'' # post"
    by blast+
  from over(2) scenario_endgame_struck
  have all_out: "list_all eliminated (players (wrong_guess scenario_endgame))" by simp
  from over(3) have ended: "GameEnded ''stopped'' \<in> set (events (wrong_guess scenario_endgame))"
    by auto
  from scenario_game_active al(1) lim k(2) zero k(3) twice scenario_trio_active(1) before
    out1 run1 obs(4) turn1 ms1 turn2 ms2 scenario_endgame_active over(1) all_out ended
  show ?thesis by simp
qed

section \<open>The countdown\<close>

lemma py_int_nonneg: "0 \<le> x \<Longrightarrow> 0 \<le> py_int x"
  by (simp add: py_int_def)

lemma ticked_fields [simp]:
  "base_seconds (ticked now t0 p) = base_seconds p"
  "eliminated (ticked now t0 p) = eliminated p"
  "get_remaining_ms (ticked now t0 p) =
     max 0 (get_remaining_ms p - py_int ((now - t0) * 1000))"
  by (simp_all add: ticked_def get_remaining_ms_def)

lemma ticked_bounds:
  assumes "t0 \<le> now" "0 \<le> get_remaining_ms p"
  shows "0 \<le> get_remaining_ms (ticked now t0 p)"
    and "get_remaining_ms (ticked now t0 p) \<le> get_remaining_ms p"
proof -
  from assms(1) have "0 \<le> py_int ((now - t0) * 1000)"
    by (intro py_int_nonneg) simp
  with assms(2) show "0 \<le> get_remaining_ms (ticked now t0 p)"
    and "get_remaining_ms (ticked now t0 p) \<le> get_remaining_ms p"
    by simp_all
qed

lemma tick_last_tick:
  "last_tick_monotonic (tick now s) = (if is_running s then Some now else last_tick_monotonic s)"
proof (cases "is_running s")
  case False
  then show ?thesis by (simp add: tick_not_running)
next
  case True
  show ?thesis
  proof (cases "last_tick_monotonic s")
    case None
    with True show ?thesis by (simp add: tick_first)
  next
    case (Some t0)
    show ?thesis
    proof (cases "fst (current_player (s\<lparr>last_tick_monotonic := Some now\<rparr>))")
      case None
      from tick_nobody [OF True Some None] True show ?thesis
        by (simp add: emitters)
    next
      case (Some i)
      from tick_somebody [OF True \<open>last_tick_monotonic s = Some t0\<close> Some refl refl] True
      show ?thesis by (simp add: emitters)
    qed
  qed
qed

lemma current_player_last_tick [simp]:
  "fst (current_player (s\<lparr>last_tick_monotonic := x\<rparr>)) = fst (current_player s)"
  by (simp add: current_player_def Let_def split: option.splits)

lemma step_ok_same_players:
  assumes "budgets_ok s" "players s' = players s"
  shows "tick_step_ok s s'" and "budgets_ok s'"
  using assms by (auto simp: tick_step_ok_def budgets_ok_def list_all_length)

lemma step_ok_update:
  assumes ok: "budgets_ok s" and i: "i < length (players s)"
    and ps: "players s' = (players s)[i := q]"
    and q: "0 \<le> get_remaining_ms q" "get_remaining_ms q \<le> get_remaining_ms (players s ! i)"
      "base_seconds q = base_seconds (players s ! i)"
  shows "tick_step_ok s s'" and "budgets_ok s'"
proof -
  show "tick_step_ok s s'"
    unfolding tick_step_ok_def
  proof (intro conjI allI impI)
    show "length (players s') = length (players s)" by (simp add: ps)
  next
    fix k assume "k < length (players s)"
    with ok q i show "0 \<le> get_remaining_ms (players s' ! k)"
      by (cases "k = i") (auto simp: ps budgets_ok_def list_all_length)
  next
    fix k assume "k < length (players s)"
    with q i have "get_remaining_ms (players s' ! k) \<le> get_remaining_ms (players s ! k)"
      by (cases "k = i") (auto simp: ps)
    then show "get_remaining_ms (players s' ! k) \<le> get_remaining_ms (players s ! k) \<or>
         get_remaining_ms (players s' ! k) = base_seconds (players s' ! k) * 1000 \<and>
         fst (current_player s') = Some k \<and> fst (current_player s) \<noteq> Some k" ..
  qed
  show "budgets_ok s'"
    unfolding budgets_ok_def list_all_length
  proof (intro allI impI)
    fix k assume "k < length (players s')"
    with ok i q show "0 \<le> base_seconds (players s' ! k) \<and> 0 \<le> get_remaining_ms (players s' ! k)"
      by (cases "k = i") (auto simp: ps budgets_ok_def list_all_length)
  qed
qed


lemma tick_timeout_advance:
  assumes ok: "budgets_ok s" and i: "i < length (players s)"
    and active: "fst (current_player s) = Some i"
    and q: "get_remaining_ms q = 0" "base_seconds q = base_seconds (players s ! i)" "eliminated q"
    and pm: "players mid = (players s)[i := q]"
    and res: "s' = emit_current_player (emit_all_players (advance_turn_after_event reason mid))"
  shows "tick_step_ok s s' \<and> budgets_ok s'"
proof -
  from ok i have pos: "0 \<le> get_remaining_ms (players s ! i)"
    by (simp add: budgets_ok_def list_all_length)
  have ps': "players s' = players (advance_turn_after_event reason mid)"
    by (simp add: res emitters)
  from advance_turn_cases [of reason mid]
  consider (same) "players (advance_turn_after_event reason mid) = players mid"
    | (moved) j where "j < length (players mid)" "\<not> eliminated (players mid ! j)"
        "players (advance_turn_after_event reason mid) = (players mid)[j := turn_reset (players mid ! j)]"
        "current_idx (advance_turn_after_event reason mid) = int j"
    by blast
  then show ?thesis
  proof cases
    case same
    with ps' pm have "players s' = (players s)[i := q]" by simp
    from step_ok_update [OF ok i this] q pos show ?thesis by simp
  next
    case (moved j)
    from moved(1) pm have j: "j < length (players s)" by simp
    from moved(2) pm i q(3) have ji: "j \<noteq> i" by auto
    with pm j have pj: "players mid ! j = players s ! j" by simp
    have ps: "players s' = (players s)[i := q, j := turn_reset (players s ! j)]"
      using pj by (simp add: ps' moved(3) pm)
    define X where "X = emit_all_players (advance_turn_after_event reason mid)"
    have pX: "players X = (players s)[i := q, j := turn_reset (players s ! j)]"
      using ps by (simp add: X_def ps' emitters)
    have alive: "\<not> eliminated (players X ! j)"
      using moved(2) pj j by (simp add: pX)
    have idxX: "current_idx X = int j"
      using moved(4) by (simp add: X_def emitters)
    have "current_player X = (Some j, X)"
      using idxX j alive by (intro current_player_at) (simp_all add: pX)
    then have idx: "current_idx s' = int j"
      using idxX by (simp add: res X_def [symmetric])
    have "current_player s' = (Some j, s')"
      using idx j alive by (intro current_player_at) (simp_all add: ps pX)
    then have turn: "fst (current_player s') = Some j" "fst (current_player s) \<noteq> Some j"
      using active ji by simp_all
    from ok j have bj: "0 \<le> base_seconds (players s ! j)"
      by (simp add: budgets_ok_def list_all_length)
    have each: "0 \<le> base_seconds (players s' ! k) \<and> 0 \<le> get_remaining_ms (players s' ! k) \<and>
        (get_remaining_ms (players s' ! k) \<le> get_remaining_ms (players s ! k) \<or>
         get_remaining_ms (players s' ! k) = base_seconds (players s' ! k) * 1000 \<and>
         fst (current_player s') = Some k \<and> fst (current_player s) \<noteq> Some k)"
      if k: "k < length (players s)" for k
    proof -
      consider "k = j" | "k = i" "k \<noteq> j" | "k \<noteq> i" "k \<noteq> j" by blast
      then show ?thesis
      proof cases
        case 1
        with j bj turn show ?thesis by (simp add: ps)
      next
        case 2
        with i q pos ok show ?thesis
          by (simp add: ps budgets_ok_def list_all_length)
      next
        case 3
        with k ok show ?thesis
          by (simp add: ps budgets_ok_def list_all_length)
      qed
    qed
    have "tick_step_ok s s'"
      unfolding tick_step_ok_def using each by (simp add: ps)
    moreover have "budgets_ok s'"
      unfolding budgets_ok_def list_all_length using each by (simp add: ps)
    ultimately show ?thesis ..
  qed
qed

lemma tick_step:
  assumes ok: "budgets_ok s"
    and clock: "case last_tick_monotonic s of None \<Rightarrow> True | Some t0 \<Rightarrow> t0 \<le> now"
  shows "tick_step_ok s (tick now s) \<and> budgets_ok (tick now s)"
proof (cases "is_running s")
  case False
  then have "players (tick now s) = players s" by (simp add: tick_not_running)
  from step_ok_same_players [OF ok this] show ?thesis by simp
next
  case True
  show ?thesis
  proof (cases "last_tick_monotonic s")
    case None
    with True have "players (tick now s) = players s" by (simp add: tick_first)
    from step_ok_same_players [OF ok this] show ?thesis by simp
  next
    case (Some t0)
    with clock have t0: "t0 \<le> now" by simp
    show ?thesis
    proof (cases "fst (current_player (s\<lparr>last_tick_monotonic := Some now\<rparr>))")
      case None
      from tick_nobody [OF True Some None] have "players (tick now s) = players s"
        by (simp add: emitters)
      from step_ok_same_players [OF ok this] show ?thesis by simp
    next
      case (Some i)
      then have active: "fst (current_player s) = Some i" by simp
      note cur = current_player_Some [OF active]
      define s1 where "s1 = snd (current_player (s\<lparr>last_tick_monotonic := Some now\<rparr>))"
      have ps1: "players s1 = players s" by (simp add: s1_def)
      define p1 where "p1 = ticked now t0 (players s1 ! i)"
      note unfold = tick_somebody [OF True \<open>last_tick_monotonic s = Some t0\<close> Some s1_def p1_def]
      from ok cur(1) have pos: "0 \<le> get_remaining_ms (players s ! i)"
        by (simp add: budgets_ok_def list_all_length)
      note bounds = ticked_bounds [OF t0 pos]
      show ?thesis
      proof (cases "get_remaining_ms p1 = 0")
        case False
        with unfold have "players (tick now s) = (players s)[i := p1]"
          by (simp add: emitters ps1)
        from step_ok_update [OF ok cur(1) this] bounds show ?thesis
          by (simp add: p1_def ps1)
      next
        case True
        define mid where "mid = emit_player_state (p1\<lparr>eliminated := True\<rparr>)
              (notify Info (MsgTimeout (name (p1\<lparr>eliminated := True\<rparr>)))
                (s1\<lparr>players := (players s1)[i := p1\<lparr>eliminated := True\<rparr>]\<rparr>))"
        have pm: "players mid = (players s)[i := p1\<lparr>eliminated := True\<rparr>]"
          by (simp add: mid_def emitters ps1)
        have res: "tick now s =
            emit_current_player (emit_all_players (advance_turn_after_event ''timeout'' mid))"
          using unfold True by (simp add: mid_def)
        have q: "get_remaining_ms (p1\<lparr>eliminated := True\<rparr>) = 0"
          "base_seconds (p1\<lparr>eliminated := True\<rparr>) = base_seconds (players s ! i)"
          "eliminated (p1\<lparr>eliminated := True\<rparr>)"
          using True by (simp_all add: get_remaining_ms_def p1_def ps1)
        from tick_timeout_advance [OF ok cur(1) active q pm res] show ?thesis .
      qed
    qed
  qed
qed

lemma tick_trace_hd: "hd (tick_trace s nows) = s"
  by (cases nows) simp_all

text \<open>
  C2. Take any sequence of calls of \<open>tick\<close> with non-decreasing clock readings, from
  a state in which no time allotment and no countdown is negative. Then at every call
  each player's \<open>remaining_ms\<close> does not increase, except for the player whose turn
  starts at that call, whose countdown is reset to \<open>base_seconds * 1000\<close>; and no
  countdown is negative in any state passed through.
\<close>

theorem tick_remaining_ms:
  assumes "clock_ok (last_tick_monotonic s) nows" and "budgets_ok s"
  shows "(\<forall>k. Suc k < length (tick_trace s nows) \<longrightarrow>
            tick_step_ok (tick_trace s nows ! k) (tick_trace s nows ! Suc k)) \<and>
         (\<forall>st \<in> set (tick_trace s nows). budgets_ok st)"
  using assms
proof (induction nows arbitrary: s)
  case Nil
  then show ?case by simp
next
  case (Cons now nows)
  from Cons.prems(1) have clock: "case last_tick_monotonic s of None \<Rightarrow> True | Some t0 \<Rightarrow> t0 \<le> now"
    by (auto simp: clock_ok_def split: option.splits)
  from Cons.prems(1) have later: "clock_ok (last_tick_monotonic (tick now s)) nows"
    by (auto simp: clock_ok_def tick_last_tick split: option.splits)
  from tick_step [OF Cons.prems(2) clock]
  have step: "tick_step_ok s (tick now s)" and ok': "budgets_ok (tick now s)" by simp_all
  from Cons.IH [OF later ok']
  have ih: "\<forall>k. Suc k < length (tick_trace (tick now s) nows) \<longrightarrow>
            tick_step_ok (tick_trace (tick now s) nows ! k) (tick_trace (tick now s) nows ! Suc k)"
    and all: "\<forall>st \<in> set (tick_trace (tick now s) nows). budgets_ok st" by simp_all
  have "tick_step_ok (tick_trace s (now # nows) ! k) (tick_trace s (now # nows) ! Suc k)"
    if "Suc k < length (tick_trace s (now # nows))" for k
  proof (cases k)
    case 0
    have "tick_trace (tick now s) nows ! 0 = tick now s"
      using tick_trace_hd [of "tick now s" nows] by (cases nows) simp_all
    with 0 step show ?thesis by simp
  next
    case (Suc m)
    with that ih show ?thesis by simp
  qed
  with all Cons.prems(2) show ?case by simp
qed


lemma scenario_first_tick:
  "get_remaining_ms (players (tick 1 scenario_game) ! 0) = 29000"
proof -
  have running: "is_running scenario_game" and last: "last_tick_monotonic scenario_game = Some 0"
    by (simp_all add: scenario_game_def)
  have active: "fst (current_player (scenario_game\<lparr>last_tick_monotonic := Some 1\<rparr>)) = Some 0"
    by (simp add: scenario_game_active)
  have p: "get_remaining_ms (ticked 1 0 (players scenario_game ! 0)) = 29000"
    by (simp add: py_int_def)
      (simp add: scenario_game_def initial_controller_def make_player_def
        reset_runtime_def get_remaining_ms_def)
  from tick_somebody [OF running last active refl refl] p
  show ?thesis by (simp add: emitters scenario_game_def)
qed

theorem tick_remaining_ms_witness:
  "clock_ok (last_tick_monotonic scenario_game) [1, 31] \<and> budgets_ok scenario_game \<and>
   tick_step_ok scenario_game (tick 1 scenario_game) \<and>
   tick_step_ok (tick 1 scenario_game) (tick 31 (tick 1 scenario_game)) \<and>
   budgets_ok (tick 31 (tick 1 scenario_game)) \<and>
   get_remaining_ms (players (tick 1 scenario_game) ! 0) = 29000"
proof -
  have clock: "clock_ok (last_tick_monotonic scenario_game) [1, 31]"
    by (simp add: clock_ok_def scenario_game_def)
  have ok: "budgets_ok scenario_game"
    by (simp add: budgets_ok_def scenario_game_def initial_controller_def make_player_def
        reset_runtime_def get_remaining_ms_def)
  from tick_remaining_ms [OF clock ok]
  have steps: "\<forall>k. Suc k < 3 \<longrightarrow>
      tick_step_ok ([scenario_game, tick 1 scenario_game, tick 31 (tick 1 scenario_game)] ! k)
        ([scenario_game, tick 1 scenario_game, tick 31 (tick 1 scenario_game)] ! Suc k)"
    and all: "budgets_ok (tick 31 (tick 1 scenario_game))"
    by simp_all
  from steps [rule_format, of 0] steps [rule_format, of 1]
  have "tick_step_ok scenario_game (tick 1 scenario_game)"
    "tick_step_ok (tick 1 scenario_game) (tick 31 (tick 1 scenario_game))"
    by simp_all
  with clock ok all scenario_first_tick show ?thesis by simp
qed

section \<open>Saving what was loaded\<close>

lemma even_cells_subset: "set (even_cells row) \<subseteq> set row"
  by (induction row rule: even_cells.induct) auto

lemma odd_cells_subset: "set (odd_cells row) \<subseteq> set row"
  by (induction row rule: odd_cells.induct) auto

lemma interleave_cells:
  "even (length row) \<Longrightarrow>
   concat (map (\<lambda>(d, m). [d, m]) (zip (even_cells row) (odd_cells row))) = row"
  by (induction row rule: even_cells.induct) auto

lemma cells_nonempty:
  "row \<noteq> [] \<Longrightarrow> even (length row) \<Longrightarrow> even_cells row \<noteq> [] \<and> odd_cells row \<noteq> []"
  by (cases row rule: even_cells.cases) auto

lemma clean_cells_kept:
  assumes "list_all clean_cell cells"
  shows "filter (\<lambda>c. c \<noteq> []) (map strip cells) = cells"
  using assms by (induction cells) (auto simp: clean_cell_def)

lemma data_row_fragments:
  assumes "data_row U row"
  shows "displays_of row = even_cells row" and "matches_of row = odd_cells row"
    and "displays_of row \<noteq> []" and "matches_of row \<noteq> []"
    and "normalize_text U (join [45] (displays_of row)) \<noteq> []"
    and "row \<noteq> []" and "\<not> is_separator row"
proof -
  from assms have clean: "list_all clean_cell row" and ne: "row \<noteq> []"
    and ev: "even (length row)" and key: "norm_disp_of U row \<noteq> []"
    by (simp_all add: data_row_def)
  from clean even_cells_subset [of row] have "list_all clean_cell (even_cells row)"
    by (auto simp: list_all_iff)
  then show d: "displays_of row = even_cells row"
    by (simp add: displays_of_def clean_cells_kept)
  from clean odd_cells_subset [of row] have "list_all clean_cell (odd_cells row)"
    by (auto simp: list_all_iff)
  then show m: "matches_of row = odd_cells row"
    by (simp add: matches_of_def clean_cells_kept)
  from cells_nonempty [OF ne ev] d m show "displays_of row \<noteq> []" "matches_of row \<noteq> []"
    by simp_all
  from key show "normalize_text U (join [45] (displays_of row)) \<noteq> []"
    by (simp add: norm_disp_of_def)
  show "row \<noteq> []" by (rule ne)
  from clean ne show "\<not> is_separator row"
    by (cases row) (auto simp: is_separator_def clean_cell_def)
qed

lemma saved_row_fragments:
  assumes "data_row U row"
    and "map_of (display_map al) k = Some (displays_of row, matches_of row)"
  shows "saved_row al k = row"
proof -
  from assms(1) have "even (length row)" by (simp add: data_row_def)
  with assms(2) data_row_fragments(1,2) [OF assms(1)] show ?thesis
    by (simp add: saved_row_def interleave_cells)
qed

lemma separator_idx_after_data:
  assumes "list_all (data_row U) rs"
  shows "separator_idx (rs @ [] # rest) = Some (length rs)"
  using assms
  by (induction rs) (auto simp: is_separator_def dest: data_row_fragments(7))

lemma load_unanswered_data_row:
  assumes "data_row U row"
  shows "items (load_unanswered_row U acc row) = items acc @ [norm_disp_of U row]"
    and "used (load_unanswered_row U acc row) = used acc"
    and "map_of (display_map (load_unanswered_row U acc row)) =
           (map_of (display_map acc))(norm_disp_of U row \<mapsto> (displays_of row, matches_of row))"
  using data_row_fragments(3-6) [OF assms]
  by (simp_all add: load_unanswered_row_def Let_def norm_disp_of_def update_conv')

lemma load_answered_data_row:
  assumes "data_row U row" and "norm_disp_of U row \<notin> set (items acc)"
    and "map_of (display_map acc) (norm_disp_of U row) = None"
  shows "items (load_answered_row U acc row) = items acc @ [norm_disp_of U row]"
    and "used (load_answered_row U acc row) = insert (norm_disp_of U row) (used acc)"
    and "map_of (display_map (load_answered_row U acc row)) =
           (map_of (display_map acc))(norm_disp_of U row \<mapsto> (displays_of row, matches_of row))"
  using data_row_fragments(3-6) [OF assms(1)] assms(2,3)
  by (simp_all add: load_answered_row_def Let_def norm_disp_of_def update_conv')

lemma unanswered_fold:
  assumes "list_all (data_row U) rs" and "distinct (map (norm_disp_of U) rs)"
  shows "items (foldl (load_unanswered_row U) acc rs) = items acc @ map (norm_disp_of U) rs"
    and "used (foldl (load_unanswered_row U) acc rs) = used acc"
    and "\<forall>r \<in> set rs. map_of (display_map (foldl (load_unanswered_row U) acc rs)) (norm_disp_of U r) =
           Some (displays_of r, matches_of r)"
    and "\<forall>k. k \<notin> set (map (norm_disp_of U) rs) \<longrightarrow>
           map_of (display_map (foldl (load_unanswered_row U) acc rs)) k = map_of (display_map acc) k"
  using assms
proof (induction rs arbitrary: acc)
  case Nil
  {
    case 1 show ?case by simp
  next
    case 2 show ?case by simp
  next
    case 3 show ?case by simp
  next
    case 4 show ?case by simp
  }
next
  case (Cons r rs)
  {
    case 1
    with Cons.IH(1) [of "load_unanswered_row U acc r"] show ?case
      by (simp add: load_unanswered_data_row)
  next
    case 2
    with Cons.IH(2) [of "load_unanswered_row U acc r"] show ?case
      by (simp add: load_unanswered_data_row)
  next
    case 3
    then have r: "data_row U r" and rs: "list_all (data_row U) rs"
      and d: "distinct (map (norm_disp_of U) rs)" and fresh: "norm_disp_of U r \<notin> set (map (norm_disp_of U) rs)"
      by simp_all
    from Cons.IH(3) [OF rs d, of "load_unanswered_row U acc r"]
      Cons.IH(4) [OF rs d, of "load_unanswered_row U acc r"] fresh
    show ?case by (simp add: load_unanswered_data_row [OF r])
  next
    case 4
    then have r: "data_row U r" and rs: "list_all (data_row U) rs"
      and d: "distinct (map (norm_disp_of U) rs)"
      by simp_all
    from Cons.IH(4) [OF rs d, of "load_unanswered_row U acc r"]
    show ?case by (simp add: load_unanswered_data_row [OF r])
  }
qed


lemma answered_fold:
  assumes "list_all (data_row U) rs" and "distinct (map (norm_disp_of U) rs)"
    and "\<forall>r \<in> set rs. norm_disp_of U r \<notin> set (items acc)"
    and "\<forall>k. map_of (display_map acc) k \<noteq> None \<longrightarrow> k \<in> set (items acc)"
  shows "items (foldl (load_answered_row U) acc rs) = items acc @ map (norm_disp_of U) rs \<and>
    used (foldl (load_answered_row U) acc rs) = used acc \<union> set (map (norm_disp_of U) rs) \<and>
    (\<forall>r \<in> set rs. map_of (display_map (foldl (load_answered_row U) acc rs)) (norm_disp_of U r) =
           Some (displays_of r, matches_of r)) \<and>
    (\<forall>k. k \<notin> set (map (norm_disp_of U) rs) \<longrightarrow>
           map_of (display_map (foldl (load_answered_row U) acc rs)) k = map_of (display_map acc) k)"
  using assms
proof (induction rs arbitrary: acc)
  case Nil
  then show ?case by simp
next
  case (Cons r rs)
  from Cons.prems have r: "data_row U r" and rs: "list_all (data_row U) rs"
    and d: "distinct (map (norm_disp_of U) rs)"
    and other: "norm_disp_of U r \<notin> set (map (norm_disp_of U) rs)"
    and new: "norm_disp_of U r \<notin> set (items acc)"
    by simp_all
  from new Cons.prems(4) have unseen: "map_of (display_map acc) (norm_disp_of U r) = None"
    by blast
  note one = load_answered_data_row [OF r new unseen]
  define acc1 where "acc1 = load_answered_row U acc r"
  have fresh1: "\<forall>x \<in> set rs. norm_disp_of U x \<notin> set (items acc1)"
    using Cons.prems(3) other by (auto simp: acc1_def one image_iff)
  have dom1: "\<forall>k. map_of (display_map acc1) k \<noteq> None \<longrightarrow> k \<in> set (items acc1)"
    using Cons.prems(4) by (auto simp: acc1_def one)
  from Cons.IH [OF rs d fresh1 dom1] other show ?case
    by (auto simp: acc1_def [symmetric]) (auto simp: acc1_def one)
qed

lemma load_canonical:
  assumes "canonical_input U unanswered answered"
  defines "al \<equiv> load_from_csv U (unanswered @ [] # answered)"
  shows "items al = map (norm_disp_of U) unanswered @ map (norm_disp_of U) answered"
    and "used al = set (map (norm_disp_of U) answered)"
    and "\<forall>r \<in> set (unanswered @ answered).
           map_of (display_map al) (norm_disp_of U r) = Some (displays_of r, matches_of r)"
proof -
  from assms(1) have un: "list_all (data_row U) unanswered" and an: "list_all (data_row U) answered"
    and dun: "distinct (map (norm_disp_of U) unanswered)"
    and dan: "distinct (map (norm_disp_of U) answered)"
    and apart: "set (map (norm_disp_of U) unanswered) \<inter> set (map (norm_disp_of U) answered) = {}"
    by (simp_all add: canonical_input_def)
  define acc where "acc = foldl (load_unanswered_row U) empty_answer_list unanswered"
  note first = unanswered_fold [OF un dun, of empty_answer_list, folded acc_def]
  have items_acc: "items acc = map (norm_disp_of U) unanswered"
    and used_acc: "used acc = {}"
    using first(1,2) by (simp_all add: empty_answer_list_def)
  have dom_acc: "\<forall>k. map_of (display_map acc) k \<noteq> None \<longrightarrow> k \<in> set (items acc)"
    using first(4) by (auto simp: items_acc empty_answer_list_def)
  have fresh: "\<forall>r \<in> set answered. norm_disp_of U r \<notin> set (items acc)"
    using apart by (auto simp: items_acc)
  have al: "al = foldl (load_answered_row U) acc answered"
    using separator_idx_after_data [OF un, of answered]
    by (simp add: al_def load_from_csv_def acc_def)
  note second = answered_fold [OF an dan fresh dom_acc, folded al]
  from second show "items al = map (norm_disp_of U) unanswered @ map (norm_disp_of U) answered"
    by (simp add: items_acc)
  from second show "used al = set (map (norm_disp_of U) answered)"
    by (simp add: used_acc)
  show "\<forall>r \<in> set (unanswered @ answered).
           map_of (display_map al) (norm_disp_of U r) = Some (displays_of r, matches_of r)"
  proof
    fix r assume "r \<in> set (unanswered @ answered)"
    then consider "r \<in> set answered" | "r \<in> set unanswered" "r \<notin> set answered" by auto
    then show "map_of (display_map al) (norm_disp_of U r) = Some (displays_of r, matches_of r)"
    proof cases
      case 1
      with second show ?thesis by blast
    next
      case 2
      with apart have "norm_disp_of U r \<notin> set (map (norm_disp_of U) answered)" by auto
      with second have "map_of (display_map al) (norm_disp_of U r) =
          map_of (display_map acc) (norm_disp_of U r)" by blast
      with first(3) 2 show ?thesis by simp
    qed
  qed
qed

text \<open>
  C4, as the code has it. For a canonical input (data rows, the row without cells, data
  rows; every data row a non-empty even number of non-blank cells without white space
  at their ends; the display keys non-empty and pairwise different), saving the catalog
  loaded from it gives the input back, row by row.
\<close>

theorem save_load_round_trip:
  assumes "canonical_input U unanswered answered"
  shows "save_to_csv (load_from_csv U (unanswered @ [] # answered)) = unanswered @ [] # answered"
proof -
  define al where "al = load_from_csv U (unanswered @ [] # answered)"
  note loaded = load_canonical [OF assms, folded al_def]
  from assms have rows: "\<forall>r \<in> set (unanswered @ answered). data_row U r"
    and apart: "set (map (norm_disp_of U) unanswered) \<inter> set (map (norm_disp_of U) answered) = {}"
    by (simp_all add: canonical_input_def list_all_iff)
  have restored: "saved_row al (norm_disp_of U r) = r" if "r \<in> set (unanswered @ answered)" for r
    using that rows loaded(3) by (intro saved_row_fragments [of U]) blast+
  have pending: "filter (\<lambda>k. k \<notin> used al) (items al) = map (norm_disp_of U) unanswered"
    using apart by (auto simp: loaded(1,2) filter_empty_conv intro!: filter_True)
  have consumed: "filter (\<lambda>k. k \<in> used al) (items al) = map (norm_disp_of U) answered"
    using apart by (auto simp: loaded(1,2) filter_empty_conv intro!: filter_True)
  have "map (saved_row al) (map (norm_disp_of U) unanswered) = unanswered"
    using restored by (simp add: map_idI)
  moreover have "map (saved_row al) (map (norm_disp_of U) answered) = answered"
    using restored by (simp add: map_idI)
  ultimately show ?thesis
    by (simp add: save_to_csv_def al_def [symmetric] pending consumed)
qed


lemma padded_rows_saved:
  "save_to_csv (load_from_csv ascii_tables padded_rows) = [[ascii ''A'', ascii ''x''], []]"
  by (simp add: padded_rows_def load_eval ascii_eval save_to_csv_def saved_row_def)

lemma relisted_rows_saved:
  "save_to_csv (load_from_csv ascii_tables relisted_rows) = [[], [ascii ''A'', ascii ''x'']]"
  by (simp add: relisted_rows_def load_eval ascii_eval save_to_csv_def saved_row_def)

text \<open>
  Two inputs in the format of the specification that are not given back: cells are
  stripped when loaded, so a cell with a leading space is saved without it; and an entry
  listed before and after the separator is loaded once, as consumed, and saved only
  after the separator.
\<close>

theorem save_load_round_trip_counterexample:
  "well_formed_input padded_rows \<and>
   save_to_csv (load_from_csv ascii_tables padded_rows) \<noteq> padded_rows \<and>
   well_formed_input relisted_rows \<and>
   save_to_csv (load_from_csv ascii_tables relisted_rows) \<noteq> relisted_rows"
proof -
  have "well_formed_input padded_rows" "well_formed_input relisted_rows"
    by (simp_all add: well_formed_input_def padded_rows_def relisted_rows_def is_separator_def
        pair_row_def ascii_eval)
  moreover have "save_to_csv (load_from_csv ascii_tables padded_rows) \<noteq> padded_rows"
    unfolding padded_rows_saved by (simp add: padded_rows_def ascii_def)
  moreover have "save_to_csv (load_from_csv ascii_tables relisted_rows) \<noteq> relisted_rows"
    unfolding relisted_rows_saved by (simp add: relisted_rows_def)
  ultimately show ?thesis by simp
qed

lemma sample_canonical: "canonical_input ascii_tables sample_unanswered sample_answered"
  by (simp add: canonical_input_def data_row_def clean_cell_def norm_disp_of_def displays_of_def
      sample_unanswered_def sample_answered_def ascii_eval)

theorem save_load_round_trip_witness:
  "canonical_input ascii_tables sample_unanswered sample_answered \<and>
   save_to_csv (load_from_csv ascii_tables (sample_unanswered @ [] # sample_answered)) =
     sample_unanswered @ [] # sample_answered"
  using save_load_round_trip [OF sample_canonical] sample_canonical by simp

section \<open>Where the chronology is in order\<close>

text \<open>
  Two values that \<open>t_norm\<close> starts with and that have the same length are equal: the
  order in which \<open>host_submit_answer\<close> visits the values of equal length cannot change
  the class it remembers.
\<close>

lemma same_prefix_same_length:
  "take (length a) t = a \<Longrightarrow> take (length b) t = b \<Longrightarrow> length a = length b \<Longrightarrow> a = b"
  by metis

text \<open>
  Every operation keeps a chronology that holds no key twice and only consumed keys,
  except loading a file; loading establishes it when the loaded entries are distinct.
\<close>

lemma add_player_answered_order [simp]:
  "answered_order (add_player U new_id nm base passes wrongs s) = answered_order s"
  by (simp add: add_player_def Let_def emitters)

lemma remove_player_answered_order [simp]:
  "answered_order (remove_player U nm s) = answered_order s"
  by (simp add: remove_player_def clamp_idx_def Let_def emitters)

lemma start_game_answered_order [simp]:
  "answered_order (start_game now s) = answered_order s"
  by (simp add: start_game_def Let_def case_prod_beta emitters split: option.splits)

lemma host_pass_answered_order [simp]:
  "answered_order (host_pass s) = answered_order s"
  by (simp add: host_pass_def Let_def case_prod_beta emitters split: option.splits)

lemma tick_answered_order [simp]:
  "answered_order (tick now s) = answered_order s"
proof (cases "is_running s")
  case False
  then show ?thesis by (simp add: tick_not_running)
next
  case True
  show ?thesis
  proof (cases "last_tick_monotonic s")
    case None
    with True show ?thesis by (simp add: tick_first)
  next
    case (Some t0)
    show ?thesis
    proof (cases "fst (current_player (s\<lparr>last_tick_monotonic := Some now\<rparr>))")
      case None
      from tick_nobody [OF True Some None] show ?thesis
        by (simp add: emitters)
    next
      case (Some i)
      from tick_somebody [OF True \<open>last_tick_monotonic s = Some t0\<close> Some refl refl]
      show ?thesis by (simp add: emitters)
    qed
  qed
qed

lemma move_player_answered_order [simp]:
  "answered_order (move_player U nm target s) = answered_order s"
  by (simp add: move_player_def Let_def emitters split: option.splits)

lemma forfeit_player_answered_order [simp]:
  "answered_order (forfeit_player U nm s) = answered_order s"
  by (simp add: forfeit_player_def Let_def emitters split: option.splits)

lemma skip_player_answered_order [simp]:
  "answered_order (skip_player U nm s) = answered_order s"
  by (simp add: skip_player_def Let_def case_prod_beta emitters split: option.splits)

lemma accept_answer_answered_order:
  "answered_order (accept_answer U i text t pc m al s) =
     (let used_disp = (if truthy (fst (mark_used U al t pc)) then fst (mark_used U al t pc) else m)
      in if truthy used_disp \<and> the used_disp \<notin> set (answered_order s)
         then answered_order s @ [the used_disp] else answered_order s)"
  by (simp add: accept_answer_def Let_def case_prod_beta emitters)

lemma mark_used_result:
  "truthy (find_match U al t pc) \<Longrightarrow>
     fst (mark_used U al t pc) = find_match U al t pc \<and>
     used (snd (mark_used U al t pc)) = insert (the (find_match U al t pc)) (used al)"
  "\<not> truthy (find_match U al t pc) \<Longrightarrow> mark_used U al t pc = (None, al)"
  by (simp_all add: mark_used_def Let_def)

lemma accept_answer_chronology_ok:
  assumes "chronology_ok s" and "answer_list s = Some al"
  shows "chronology_ok (accept_answer U i text t pc (find_match U al t pc) al s)"
proof (cases "truthy (find_match U al t pc)")
  case True
  with assms mark_used_result(1) [OF True] show ?thesis
    by (auto simp: chronology_ok_def accept_answer_answered_order Let_def)
next
  case False
  with assms mark_used_result(2) [OF False] show ?thesis
    by (auto simp: chronology_ok_def accept_answer_answered_order Let_def truthy_def)
qed

lemma host_submit_answer_chronology_ok:
  assumes "chronology_ok s"
  shows "chronology_ok (host_submit_answer U inp s)"
proof (cases "fst (current_player s)")
  case None
  with assms show ?thesis
    by (simp add: host_submit_answer_def case_prod_beta chronology_ok_def emitters)
next
  case (Some i)
  show ?thesis
  proof (cases "answer_list s")
    case None
    with Some assms show ?thesis
      by (simp add: host_submit_answer_def case_prod_beta chronology_ok_def emitters)
  next
    case (Some al)
    define s3 where "s3 = remember_class U al (answer_text_of inp)
        (find_match U al (answer_text_of inp) (last_answered_class s))
        (update_player i (record_answer U inp
           (find_match U al (answer_text_of inp) (last_answered_class s) \<noteq> None))
           (snd (current_player s)))"
    have ok3: "chronology_ok s3" and al3: "answer_list s3 = Some al"
      using assms Some by (simp_all add: s3_def chronology_ok_def)
    have res: "host_submit_answer U inp s = emit_current_player (emit_all_players
        (if find_match U al (answer_text_of inp) (last_answered_class s) \<noteq> None
         then accept_answer U i inp (answer_text_of inp) (last_answered_class s)
                (find_match U al (answer_text_of inp) (last_answered_class s)) al s3
         else reject_answer i inp s3))"
      using \<open>fst (current_player s) = Some i\<close> Some
      by (simp add: host_submit_answer_def case_prod_beta Let_def s3_def)
    show ?thesis
    proof (cases "find_match U al (answer_text_of inp) (last_answered_class s) = None")
      case True
      with ok3 al3 show ?thesis
        by (simp add: res chronology_ok_def emitters)
    next
      case False
      with accept_answer_chronology_ok [OF ok3 al3, of U i inp "answer_text_of inp"
          "last_answered_class s"]
      show ?thesis by (simp add: res chronology_ok_def emitters)
    qed
  qed
qed

lemma step_chronology_ok:
  assumes "chronology_ok s" and "\<forall>rows. a \<noteq> LoadCsv (Some rows)"
  shows "chronology_ok (step U s a)"
proof (cases a)
  case (LoadCsv rows)
  with assms show ?thesis
    by (cases rows) (simp_all add: load_csv_def chronology_ok_def emitters)
next
  case (HostSubmitAnswer inp)
  with assms show ?thesis by (simp add: host_submit_answer_chronology_ok)
next
  case (UnmarkAnswer k)
  with assms show ?thesis
    by (auto simp: unmark_answer_def chronology_ok_def Let_def emitters split: option.splits)
next
  case (ReorderPlayersByName names)
  with assms show ?thesis
    by (simp add: reorder_players_by_name_def)
qed (use assms in \<open>simp_all add: chronology_ok_def register_player_state_def\<close>)

lemma load_csv_chronology_ok:
  assumes "distinct (items (load_from_csv U rows))"
  shows "chronology_ok (load_csv U (Some rows) s)"
  using assms by (auto simp: load_csv_def chronology_ok_def Let_def emitters)

end
